theory Spec2Isabelle
  imports Main "HOL-Library.Char_ord" "HOL-Library.List_Lexorder" "HOL-Library.Product_Lexorder"
begin

section \<open>Strings\<close>

text \<open>
  A JavaScript string is modelled as a \<^typ>\<open>string\<close>: a list of characters whose codes are
  read as the code points 0..255 (ASCII and Latin-1). \<open>length\<close> counts characters, as
  \<open>String.prototype.length\<close> does on such strings.
\<close>

definition is_space :: "char \<Rightarrow> bool" where
  \<comment> \<open>the class \<open>\s\<close> of a regular expression, which is also what \<open>trim()\<close> removes:
      TAB, LF, VT, FF, CR, SPACE and NBSP\<close>
  "is_space c \<longleftrightarrow> c \<in> set [CHR 0x09, CHR 0x0A, CHR 0x0B, CHR 0x0C, CHR 0x0D, CHR 0x20, CHR 0xA0]"

definition lowerChar :: "char \<Rightarrow> char" where
  \<comment> \<open>\<open>toLowerCase()\<close> on one character: A-Z and the Latin-1 capitals (all but the
      multiplication sign 0xD7) move up by 32\<close>
  "lowerChar c =
     (let n = (of_char c :: nat)
      in if (65 \<le> n \<and> n \<le> 90) \<or> (192 \<le> n \<and> n \<le> 222 \<and> n \<noteq> 215) then char_of (n + 32) else c)"

definition toLowerCase :: "string \<Rightarrow> string" where
  "toLowerCase s = map lowerChar s"

function collapseWs :: "string \<Rightarrow> string" where
  \<comment> \<open>\<open>s.replace(/\s+/g, " ")\<close>: every maximal run of whitespace becomes one space\<close>
  "collapseWs [] = []"
| "collapseWs (c # cs) =
     (if is_space c then CHR '' '' # collapseWs (dropWhile is_space cs) else c # collapseWs cs)"
  by pat_completeness auto
termination
  by (relation "measure length") (auto simp: le_imp_less_Suc length_dropWhile_le)

definition trim :: "string \<Rightarrow> string" where
  "trim s = rev (dropWhile is_space (rev (dropWhile is_space s)))"

definition slice :: "string \<Rightarrow> int \<Rightarrow> int \<Rightarrow> string" where
  \<comment> \<open>\<open>s.slice(start, end)\<close> on integers: a negative index counts from the end, both are
      clamped to the string, and an empty range gives the empty string\<close>
  "slice s start end' =
     (let len = int (length s);
          from = (if start < 0 then max (len + start) 0 else min start len);
          to = (if end' < 0 then max (len + end') 0 else min end' len)
      in take (nat (to - from)) (drop (nat from) s))"

section \<open>Chunker (rag.ts)\<close>

text \<open>
  \<open>CHUNK_SIZE\<close> and \<open>CHUNK_OVERLAP\<close> are read from the environment with \<open>parseInt\<close>; they
  are parameters here, integers of either sign (a setting that \<open>parseInt\<close> cannot read is
  outside the model). The windowing loop of \<open>chunkText\<close> need not
  terminate, so it is a partial function: \<open>None\<close> is a loop that never returns.
\<close>

partial_function (option) chunkLoop ::
  "int \<Rightarrow> int \<Rightarrow> string \<Rightarrow> int \<Rightarrow> string list \<Rightarrow> string list option" where
  "chunkLoop CHUNK_SIZE CHUNK_OVERLAP normalized start chunks =
     (if start < int (length normalized) then
        (let end' = min (int (length normalized)) (start + CHUNK_SIZE);
             chunks' = chunks @ [slice normalized start end']
         in if end' \<ge> int (length normalized) then Some chunks'
            else chunkLoop CHUNK_SIZE CHUNK_OVERLAP normalized (max 0 (end' - CHUNK_OVERLAP)) chunks')
      else Some chunks)"

declare chunkLoop.simps [code]

definition normalizeText :: "string \<Rightarrow> string" where
  \<comment> \<open>\<open>text.replace(/\s+/g, " ").trim()\<close>\<close>
  "normalizeText text = trim (collapseWs text)"

definition chunkText :: "int \<Rightarrow> int \<Rightarrow> string \<Rightarrow> string list option" where
  "chunkText CHUNK_SIZE CHUNK_OVERLAP text =
     (let normalized = normalizeText text
      in if normalized = [] then Some []
         else if int (length normalized) \<le> CHUNK_SIZE then Some [normalized]
         else chunkLoop CHUNK_SIZE CHUNK_OVERLAP normalized 0 [])"

section \<open>Index store (db.ts)\<close>

text \<open>
  The three SQLite tables. \<open>rag_chunks\<close> is the list of its rows in insertion order, with
  the primary key (domain, url, chunk_id) checked at every insert; \<open>rag_meta\<close> and
  \<open>site_facts\<close> have the domain as their primary key and are maps. \<open>datetime('now')\<close> is
  the parameter \<open>now\<close>.
\<close>

record RagChunk =
  domain :: string
  rc_url :: string
  rc_title :: string
  chunkId :: nat
  rc_content :: string
  updatedAt :: string

record RagMeta =
  siteName :: "string option"
  pageCount :: nat
  chunkCount :: nat
  indexedAt :: string

record Db =
  site_facts :: "string \<rightharpoonup> string \<times> string"
  rag_chunks :: "RagChunk list"
  rag_meta :: "string \<rightharpoonup> RagMeta"

record PreparedPage =
  pp_url :: string
  pp_title :: string
  chunks :: "string list"

datatype error = NoPagesScraped | NoChunksGenerated | ConstraintFailed

definition chunkKey :: "RagChunk \<Rightarrow> string \<times> string \<times> nat" where
  "chunkKey r = (domain r, rc_url r, chunkId r)"

definition deleteStmt :: "string \<Rightarrow> RagChunk list \<Rightarrow> RagChunk list" where
  \<comment> \<open>\<open>DELETE FROM rag_chunks WHERE domain = ?\<close>\<close>
  "deleteStmt d rows = filter (\<lambda>r. domain r \<noteq> d) rows"

definition insertStmt ::
  "string \<Rightarrow> string \<Rightarrow> string \<Rightarrow> string \<Rightarrow> nat \<Rightarrow> string \<Rightarrow> RagChunk list \<Rightarrow> error + RagChunk list" where
  \<comment> \<open>\<open>INSERT INTO rag_chunks ...\<close>: a row with the same primary key makes the statement throw\<close>
  "insertStmt now d u t i c rows =
     (let r = \<lparr>domain = d, rc_url = u, rc_title = t, chunkId = i, rc_content = c, updatedAt = now\<rparr>
      in if chunkKey r \<in> set (map chunkKey rows) then Inl ConstraintFailed else Inr (rows @ [r]))"

fun insertChunks ::
  "string \<Rightarrow> string \<Rightarrow> PreparedPage \<Rightarrow> nat \<Rightarrow> string list \<Rightarrow> RagChunk list \<times> nat
     \<Rightarrow> error + RagChunk list \<times> nat" where
  \<comment> \<open>the inner loop \<open>for (let i = 0; i < page.chunks.length; i++)\<close>, from index \<open>i\<close> on\<close>
  "insertChunks now d page i [] st = Inr st"
| "insertChunks now d page i (c # cs) (rows, chunkCnt) =
     (case insertStmt now d (pp_url page)
             (if pp_title page = [] then ''Untitled'' else pp_title page) i c rows of
        Inl e \<Rightarrow> Inl e
      | Inr rows' \<Rightarrow> insertChunks now d page (i + 1) cs (rows', chunkCnt + 1))"

fun insertPages ::
  "string \<Rightarrow> string \<Rightarrow> PreparedPage list \<Rightarrow> RagChunk list \<times> nat \<times> nat
     \<Rightarrow> error + RagChunk list \<times> nat \<times> nat" where
  \<comment> \<open>the outer loop \<open>for (const page of pages)\<close>\<close>
  "insertPages now d [] st = Inr st"
| "insertPages now d (page # pages) (rows, pageCnt, chunkCnt) =
     (case insertChunks now d page 0 (chunks page) (rows, chunkCnt) of
        Inl e \<Rightarrow> Inl e
      | Inr (rows', chunkCnt') \<Rightarrow> insertPages now d pages (rows', pageCnt + 1, chunkCnt'))"

definition replaceRagChunks ::
  "string \<Rightarrow> Db \<Rightarrow> string \<Rightarrow> string option \<Rightarrow> PreparedPage list \<Rightarrow> error + Db \<times> nat \<times> nat" where
  \<comment> \<open>one transaction: an insert that throws rolls everything back (the caller keeps the
      database it had) and the error reaches the caller\<close>
  "replaceRagChunks now db d site pages =
     (case insertPages now d pages (deleteStmt d (rag_chunks db), 0, 0) of
        Inl e \<Rightarrow> Inl e
      | Inr (rows, pageCount', chunkCount') \<Rightarrow>
          Inr (db\<lparr>rag_chunks := rows,
                  rag_meta := (rag_meta db)(d \<mapsto>
                    \<lparr>siteName = site, pageCount = pageCount', chunkCount = chunkCount',
                     indexedAt = now\<rparr>)\<rparr>,
               pageCount', chunkCount'))"

definition pageRows :: "string \<Rightarrow> string \<Rightarrow> PreparedPage \<Rightarrow> RagChunk list" where
  \<comment> \<open>the rows a rebuild is to store for one page: its chunks in order, numbered from 0\<close>
  "pageRows now d page =
     map (\<lambda>(j, c). \<lparr>domain = d, rc_url = pp_url page,
                      rc_title = (if pp_title page = [] then ''Untitled'' else pp_title page),
                      chunkId = j, rc_content = c, updatedAt = now\<rparr>)
       (enumerate 0 (chunks page))"

definition getRagChunks :: "Db \<Rightarrow> string \<Rightarrow> RagChunk list" where
  \<comment> \<open>\<open>SELECT ... WHERE domain = ? ORDER BY url, chunk_id\<close>; urls compare character by
      character (the BINARY collation), and the key is unique within a domain\<close>
  "getRagChunks db d =
     sort_key (\<lambda>r. (rc_url r, chunkId r)) (filter (\<lambda>r. domain r = d) (rag_chunks db))"

definition getRagMeta :: "Db \<Rightarrow> string \<Rightarrow> RagMeta option" where
  "getRagMeta db d = rag_meta db d"

definition putSiteFacts :: "string \<Rightarrow> Db \<Rightarrow> string \<Rightarrow> string \<Rightarrow> Db" where
  \<comment> \<open>the facts are stored as their JSON text\<close>
  "putSiteFacts now db d facts = db\<lparr>site_facts := (site_facts db)(d \<mapsto> (facts, now))\<rparr>"

section \<open>Retriever (rag.ts)\<close>

definition urlAt :: "string \<Rightarrow> bool" where
  \<comment> \<open>the regular expression \<open>https?:\/\/[^\s]+\<close> matches at the head of the string\<close>
  "urlAt s \<longleftrightarrow>
     (take 8 s = ''https://'' \<and> drop 8 s \<noteq> [] \<and> \<not> is_space (hd (drop 8 s))) \<or>
     (take 7 s = ''http://'' \<and> drop 7 s \<noteq> [] \<and> \<not> is_space (hd (drop 7 s)))"

function stripUrls :: "string \<Rightarrow> string" where
  \<comment> \<open>\<open>s.replace(/https?:\/\/[^\s]+/g, " ")\<close>: a match runs to the next whitespace\<close>
  "stripUrls [] = []"
| "stripUrls (c # cs) =
     (if urlAt (c # cs) then CHR '' '' # stripUrls (dropWhile (\<lambda>x. \<not> is_space x) cs)
      else c # stripUrls cs)"
  by pat_completeness auto
termination
  by (relation "measure length") (auto simp: le_imp_less_Suc length_dropWhile_le)

definition isAlnum :: "char \<Rightarrow> bool" where
  \<comment> \<open>the class \<open>[a-z0-9]\<close>\<close>
  "isAlnum c \<longleftrightarrow> (CHR ''a'' \<le> c \<and> c \<le> CHR ''z'') \<or> (CHR ''0'' \<le> c \<and> c \<le> CHR ''9'')"

definition stripPunct :: "string \<Rightarrow> string" where
  \<comment> \<open>\<open>s.replace(/[^a-z0-9\s]/g, " ")\<close>\<close>
  "stripPunct s = map (\<lambda>c. if isAlnum c \<or> is_space c then c else CHR '' '') s"

function splitWs :: "string \<Rightarrow> string \<Rightarrow> string list" where
  \<comment> \<open>\<open>s.split(/\s+/)\<close>, with the piece read so far; the empty pieces at both ends are kept\<close>
  "splitWs cur [] = [cur]"
| "splitWs cur (c # cs) =
     (if is_space c then cur # splitWs [] (dropWhile is_space cs) else splitWs (cur @ [c]) cs)"
  by pat_completeness auto
termination
  by (relation "measure (\<lambda>(cur, s). length s)") (auto simp: le_imp_less_Suc length_dropWhile_le)

definition tokenize :: "string \<Rightarrow> string list" where
  "tokenize text =
     filter (\<lambda>w. length w > 2) (splitWs [] (stripPunct (stripUrls (toLowerCase text))))"

function splitOn :: "string \<Rightarrow> string \<Rightarrow> string \<Rightarrow> string list" where
  \<comment> \<open>\<open>s.split(sep)\<close> for a separator that is not empty: the occurrences are found from
      the left and do not overlap\<close>
  "splitOn sep cur [] = [cur]"
| "splitOn sep cur (c # cs) =
     (if sep \<noteq> [] \<and> take (length sep) (c # cs) = sep
      then cur # splitOn sep [] (drop (length sep) (c # cs))
      else splitOn sep (cur @ [c]) cs)"
  by pat_completeness auto
termination
  by (relation "measure (\<lambda>(sep, cur, s). length s)") auto

definition split :: "string \<Rightarrow> string \<Rightarrow> string list" where
  \<comment> \<open>the empty separator splits into single characters\<close>
  "split s sep = (if sep = [] then map (\<lambda>c. [c]) s else splitOn sep [] s)"

fun includesStr :: "string \<Rightarrow> string \<Rightarrow> bool" where
  \<comment> \<open>\<open>s.includes(t)\<close>\<close>
  "includesStr [] t = (t = [])"
| "includesStr (c # cs) t = (take (length t) (c # cs) = t \<or> includesStr cs t)"

fun scoreTerms :: "string \<Rightarrow> string \<Rightarrow> string \<Rightarrow> string list \<Rightarrow> int \<Rightarrow> int" where
  \<comment> \<open>the loop \<open>for (const term of queryTerms)\<close> of scoreChunk, with the score so far\<close>
  "scoreTerms hay t u [] score = score"
| "scoreTerms hay t u (term # terms) score =
     (if term = [] then scoreTerms hay t u terms score
      else
        (let occurrences = int (length (split hay term)) - 1;
             score1 = (if occurrences > 0 then score + occurrences else score);
             score2 = (if includesStr (toLowerCase t) term then score1 + 4 else score1);
             score3 = (if includesStr (toLowerCase u) term then score2 + 3 else score2)
         in scoreTerms hay t u terms score3))"

definition scoreChunk :: "string \<Rightarrow> string \<Rightarrow> string \<Rightarrow> string list \<Rightarrow> int" where
  "scoreChunk c t u queryTerms =
     scoreTerms (toLowerCase (t @ '' '' @ u @ '' '' @ c)) t u queryTerms 0"

record PreparedChunk =
  sc_url :: string
  sc_title :: string
  sc_chunkId :: nat
  sc_content :: string
  score :: int

record Retrieved =
  contextStr :: string
  sources :: "string list"
  bestScore :: int
  topScore :: int

function showNat :: "nat \<Rightarrow> string" where
  \<comment> \<open>the decimal digits of a number, as a template literal prints it\<close>
  "showNat n =
     (if n < 10 then [char_of (48 + n)] else showNat (n div 10) @ [char_of (48 + n mod 10)])"
  by pat_completeness auto
termination
  by (relation "measure id") auto

definition entryOf :: "PreparedChunk \<Rightarrow> string" where
  "entryOf chunk =
     ''--- '' @ sc_title chunk @ '' ('' @ sc_url chunk @ '') [chunk '' @ showNat (sc_chunkId chunk)
       @ ''] ---'' @ [CHR 0x0A] @ sc_content chunk"

fun assemble ::
  "int \<Rightarrow> PreparedChunk list \<Rightarrow> string list \<Rightarrow> string list \<Rightarrow> int \<Rightarrow> string list \<times> string list" where
  \<comment> \<open>the loop \<open>for (const chunk of selected)\<close> with its \<open>break\<close>; \<open>srcs\<close> is the set of
      sources in insertion order\<close>
  "assemble maxChars [] parts srcs total' = (parts, srcs)"
| "assemble maxChars (chunk # rest) parts srcs total' =
     (let entry = entryOf chunk
      in if total' + int (length entry) > maxChars then (parts, srcs)
         else assemble maxChars rest (parts @ [entry])
                (if sc_url chunk \<in> set srcs then srcs else srcs @ [sc_url chunk])
                (total' + int (length entry)))"

fun join :: "string list \<Rightarrow> string \<Rightarrow> string" where
  \<comment> \<open>\<open>parts.join(sep)\<close>\<close>
  "join [] sep = []"
| "join [p] sep = p"
| "join (p # q # ps) sep = p @ sep @ join (q # ps) sep"

definition sortByScore :: "PreparedChunk list \<Rightarrow> PreparedChunk list" where
  \<comment> \<open>\<open>scored.sort((a, b) => b.score - a.score)\<close>: a stable sort, highest score first\<close>
  "sortByScore scored = sort_key (\<lambda>s. - score s) scored"

definition selectChunks :: "int \<Rightarrow> PreparedChunk list \<Rightarrow> PreparedChunk list" where
  \<comment> \<open>\<open>scored.filter((s, i) => i < topK && (s.score > 0 || i < 2))\<close>\<close>
  "selectChunks topK scored =
     map snd (filter (\<lambda>(i, s). int i < topK \<and> (score s > 0 \<or> i < 2)) (enumerate 0 scored))"

definition scoreRows :: "string list \<Rightarrow> RagChunk list \<Rightarrow> PreparedChunk list" where
  "scoreRows queryTerms rows =
     map (\<lambda>row. \<lparr>sc_url = rc_url row, sc_title = rc_title row, sc_chunkId = chunkId row,
                  sc_content = rc_content row,
                  score = scoreChunk (rc_content row) (rc_title row) (rc_url row) queryTerms\<rparr>) rows"

definition retrieveRagContext ::
  "int \<Rightarrow> int \<Rightarrow> Db \<Rightarrow> string \<Rightarrow> string \<Rightarrow> int option \<Rightarrow> int option \<Rightarrow> Retrieved" where
  \<comment> \<open>\<open>TOP_K\<close> and \<open>MAX_CONTEXT_CHARS\<close> are the environment's defaults for the two options\<close>
  "retrieveRagContext TOP_K MAX_CONTEXT_CHARS db d userQuery optTopK optMaxChars =
     (let topK = (case optTopK of Some k \<Rightarrow> k | None \<Rightarrow> TOP_K);
          maxChars = (case optMaxChars of Some m \<Rightarrow> m | None \<Rightarrow> MAX_CONTEXT_CHARS);
          rows = getRagChunks db d
      in if rows = [] then \<lparr>contextStr = [], sources = [], bestScore = 0, topScore = 0\<rparr>
         else
           (let queryTerms = tokenize userQuery;
                scored = sortByScore (scoreRows queryTerms rows);
                best = (case scored of [] \<Rightarrow> 0 | s # _ \<Rightarrow> score s);
                selected = selectChunks topK scored;
                res = assemble maxChars selected [] [] 0
            in \<lparr>contextStr = join (fst res) [CHR 0x0A, CHR 0x0A], sources = snd res,
                bestScore = best, topScore = best\<rparr>))"

definition isLikelyOnTopic :: "int \<Rightarrow> int \<Rightarrow> int \<Rightarrow> Db \<Rightarrow> string \<Rightarrow> string \<Rightarrow> bool" where
  \<comment> \<open>\<open>minScore\<close> is \<open>RAG_MIN_TOPIC_SCORE\<close>, 2 unless the environment says otherwise\<close>
  "isLikelyOnTopic TOP_K MAX_CONTEXT_CHARS minScore db d message =
     (bestScore (retrieveRagContext TOP_K MAX_CONTEXT_CHARS db d message (Some 1) (Some 1200))
        \<ge> minScore)"

section \<open>Crawler (scraper.ts)\<close>

text \<open>
  The network and the libraries the crawler calls are parameters: \<open>fetchPage\<close> gives the
  HTML of a response that is ok and \<open>text/html\<close> (and \<open>None\<close> for every failure, time-out
  or other content type), \<open>cheerio\<close> is what the Cheerio selectors of \<open>extractText\<close> give for
  a document (the title, the text of the main content before the whitespace is cleaned up, and
  the links),
  \<open>normUrl\<close> the normalisation built on the URL class, and \<open>fetchSitemapUrls\<close> the result
  of the sitemap discovery. Every call that reaches the network is logged in \<open>calls\<close>, a
  trace the source does not keep. The tasks of one batch run concurrently: their fetches are
  issued in the order of the batch, and they finish in an order that the scheduler chooses.
  \<open>finishes\<close>, given the tasks that are still pending, gives the position of the one that
  finishes next; pages and discovered links are pushed in that order.
\<close>

record PageData =
  url :: string
  title :: string
  content :: string

record Web =
  fetchPage :: "string \<Rightarrow> string option"
  cheerio :: "string \<Rightarrow> string \<times> string \<times> string list"
  normUrl :: "string \<Rightarrow> string \<Rightarrow> string option"
  fetchSitemapUrls :: "string \<Rightarrow> string list"
  finishes :: "string list \<Rightarrow> nat"

datatype NetCall = SitemapFetch string | PageFetch string

definition extractText :: "Web \<Rightarrow> string \<Rightarrow> string \<times> string \<times> string list" where
  \<comment> \<open>the last step is \<open>text = text.replace(/\s+/g, " ").trim()\<close>\<close>
  "extractText web html =
     (case cheerio web html of (t, text, links) \<Rightarrow> (t, normalizeText text, links))"

record CrawlState =
  visited :: "string list"
  queue :: "string list"
  pages :: "PageData list"
  calls :: "NetCall list"

definition priorityPaths :: "string list" where
  "priorityPaths =
     [''/'', ''/about'', ''/about/'', ''/about-us'', ''/about-us/'', ''/contact'', ''/contact/'',
      ''/contact-us'', ''/contact-us/'', ''/services'', ''/services/'',
      ''/web-development-design/'']"

definition addSeed :: "Web \<Rightarrow> string \<Rightarrow> string list \<Rightarrow> string \<Rightarrow> string list" where
  \<comment> \<open>\<open>const n = normUrl(href, baseDomain); if (n) seeds.add(n)\<close>, the set kept as the list
      of its elements in insertion order\<close>
  "addSeed web baseDomain seeds href =
     (case normUrl web href baseDomain of
        None \<Rightarrow> seeds
      | Some n \<Rightarrow> if n = [] \<or> n \<in> set seeds then seeds else seeds @ [n])"

definition buildSeedQueue :: "Web \<Rightarrow> string list \<Rightarrow> string \<Rightarrow> string list" where
  \<comment> \<open>\<open>extra\<close> is \<open>SCRAPER_EXTRA_URLS\<close>, split and trimmed\<close>
  "buildSeedQueue web extra baseDomain =
     foldl (addSeed web baseDomain) [] (baseDomain # priorityPaths @ extra)"

definition canVisitMore :: "int \<Rightarrow> string list \<Rightarrow> bool" where
  "canVisitMore MAX_PAGES vis \<longleftrightarrow> MAX_PAGES \<le> 0 \<or> int (length vis) < MAX_PAGES"

fun buildBatch ::
  "int \<Rightarrow> int \<Rightarrow> string list \<Rightarrow> string list \<Rightarrow> string list
     \<Rightarrow> string list \<times> string list \<times> string list" where
  \<comment> \<open>the inner loop \<open>while (queue.length > 0 && batch.length < CONCURRENCY)\<close>; the result is
      the queue that is left, the visited set and the batch\<close>
  "buildBatch MAX_PAGES CONCURRENCY [] vis batch = ([], vis, batch)"
| "buildBatch MAX_PAGES CONCURRENCY (u # q) vis batch =
     (if int (length batch) < CONCURRENCY then
        (if u \<notin> set vis \<and> canVisitMore MAX_PAGES vis
         then buildBatch MAX_PAGES CONCURRENCY q (vis @ [u]) (batch @ [u])
         else buildBatch MAX_PAGES CONCURRENCY q vis batch)
      else (u # q, vis, batch))"

function finishOrder :: "(string list \<Rightarrow> nat) \<Rightarrow> string list \<Rightarrow> string list" where
  \<comment> \<open>the order in which the tasks of a batch finish: a position beyond the pending tasks
      wraps around\<close>
  "finishOrder pick [] = []"
| "finishOrder pick (u # us) =
     (let i = pick (u # us) mod length (u # us)
      in (u # us) ! i # finishOrder pick (take i (u # us) @ drop (Suc i) (u # us)))"
  by pat_completeness auto
termination
  by (relation "measure (\<lambda>(pick, us). length us)") auto

fun runTask ::
  "Web \<Rightarrow> string list \<Rightarrow> PageData list \<times> string list \<Rightarrow> string
     \<Rightarrow> PageData list \<times> string list" where
  \<comment> \<open>what a task does once its fetch has answered, on the pages and the discovered links
      so far\<close>
  "runTask web vis (pgs, discovered) u =
     (case fetchPage web u of
        None \<Rightarrow> (pgs, discovered)
      | Some html \<Rightarrow>
          (case extractText web html of
             (t, text, links) \<Rightarrow>
               if length text < 20 then (pgs, discovered)
               else (pgs @ [\<lparr>url = u, title = t, content = slice text 0 8000\<rparr>],
                     discovered @ filter (\<lambda>n. n \<noteq> [] \<and> n \<notin> set vis)
                                    (List.map_filter (\<lambda>href. normUrl web href u) links))))"

definition endsWith :: "string \<Rightarrow> string \<Rightarrow> bool" where
  "endsWith s t \<longleftrightarrow> length t \<le> length s \<and> drop (length s - length t) s = t"

definition isCorePath :: "string \<Rightarrow> bool" where
  \<comment> \<open>\<open>/(\/about|\/about-us|\/contact|\/contact-us|\/services)(\/|$)/i.test(u)\<close>\<close>
  "isCorePath u \<longleftrightarrow>
     list_ex (\<lambda>p. includesStr (toLowerCase u) (p @ ''/'') \<or> endsWith (toLowerCase u) p)
       [''/about'', ''/about-us'', ''/contact'', ''/contact-us'', ''/services'']"

partial_function (option) crawlLoop :: "Web \<Rightarrow> int \<Rightarrow> int \<Rightarrow> CrawlState \<Rightarrow> CrawlState option" where
  \<comment> \<open>the loop \<open>while (queue.length > 0 && canVisitMore())\<close>\<close>
  "crawlLoop web MAX_PAGES CONCURRENCY st =
     (if queue st \<noteq> [] \<and> canVisitMore MAX_PAGES (visited st) then
        (case buildBatch MAX_PAGES CONCURRENCY (queue st) (visited st) [] of
           (q, vis, batch) \<Rightarrow>
             if batch = [] then Some (st\<lparr>queue := q, visited := vis\<rparr>)
             else
               (case foldl (runTask web vis) (pages st, [])
                       (finishOrder (finishes web) batch) of
                  (pgs, discovered) \<Rightarrow>
                    crawlLoop web MAX_PAGES CONCURRENCY
                      \<lparr>visited = vis,
                       queue = q @ filter isCorePath discovered
                                 @ filter (\<lambda>u. \<not> isCorePath u) discovered,
                       pages = pgs, calls = calls st @ map PageFetch batch\<rparr>))
      else Some st)"

declare crawlLoop.simps [code]

definition scrapeState ::
  "Web \<Rightarrow> string \<Rightarrow> int \<Rightarrow> int \<Rightarrow> string list \<Rightarrow> string \<Rightarrow> CrawlState option" where
  \<comment> \<open>the whole of scrapesite, with the state the crawl ends in; \<open>d\<close> is the optional
      argument, absent or empty when the configured domain is to be used\<close>
  "scrapeState web SITE_DOMAIN MAX_PAGES CONCURRENCY extra d =
     (let baseDomain = (if d = [] then SITE_DOMAIN else d)
      in crawlLoop web MAX_PAGES CONCURRENCY
           \<lparr>visited = [],
            queue = buildSeedQueue web extra baseDomain @ fetchSitemapUrls web baseDomain,
            pages = [], calls = [SitemapFetch baseDomain]\<rparr>)"

definition scrapesite ::
  "Web \<Rightarrow> string \<Rightarrow> int \<Rightarrow> int \<Rightarrow> string list \<Rightarrow> string \<Rightarrow> (PageData list \<times> NetCall list) option" where
  "scrapesite web SITE_DOMAIN MAX_PAGES CONCURRENCY extra d =
     map_option (\<lambda>st. (pages st, calls st))
       (scrapeState web SITE_DOMAIN MAX_PAGES CONCURRENCY extra d)"

section \<open>Index build (rag.ts)\<close>

text \<open>
  The environment of a build: the configured domain, the numeric knobs as \<open>parseInt\<close>
  read them, the extra seed urls, the crawler's network, and the fact extractor, which is a
  parameter that gives the facts as their JSON text. A build that never returns (a crawl
  without a page budget on an endless site, or a windowing loop that does not advance) is
  \<open>None\<close>; otherwise the result is the database after the call, the network calls made,
  and the value returned or the error thrown.
\<close>

record Env =
  SITE_DOMAIN :: string
  SCRAPER_MAX_PAGES :: int
  SCRAPER_CONCURRENCY :: int
  SCRAPER_EXTRA_URLS :: "string list"
  RAG_CHUNK_SIZE :: int
  RAG_CHUNK_OVERLAP :: int
  web :: Web
  extractFactsObject :: "PageData list \<Rightarrow> string"

fun preparePages :: "int \<Rightarrow> int \<Rightarrow> PageData list \<Rightarrow> PreparedPage list option" where
  \<comment> \<open>\<open>pages.map((p) => ({url: p.url, title: p.title || "Untitled", chunks: chunkText(p.content)}))\<close>\<close>
  "preparePages CHUNK_SIZE CHUNK_OVERLAP [] = Some []"
| "preparePages CHUNK_SIZE CHUNK_OVERLAP (p # ps) =
     (case chunkText CHUNK_SIZE CHUNK_OVERLAP (content p) of
        None \<Rightarrow> None
      | Some cs \<Rightarrow>
          (case preparePages CHUNK_SIZE CHUNK_OVERLAP ps of
             None \<Rightarrow> None
           | Some pps \<Rightarrow>
               Some (\<lparr>pp_url = url p,
                      pp_title = (if title p = [] then ''Untitled'' else title p),
                      chunks = cs\<rparr> # pps)))"

definition indexPages ::
  "Env \<Rightarrow> string \<Rightarrow> Db \<Rightarrow> string \<Rightarrow> string \<Rightarrow> PageData list \<Rightarrow> (Db \<times> (error + nat \<times> nat)) option" where
  \<comment> \<open>buildRagIndex after the crawl: from the check of \<open>pages.length\<close> on; the value
      returned is (pageCount, chunkCount)\<close>
  "indexPages env now db d site pgs =
     (if pgs = [] then Some (db, Inl NoPagesScraped)
      else
        (case preparePages (RAG_CHUNK_SIZE env) (RAG_CHUNK_OVERLAP env) pgs of
           None \<Rightarrow> None
         | Some preparedPages \<Rightarrow>
             (case replaceRagChunks now db d (Some site) preparedPages of
                Inl e \<Rightarrow> Some (db, Inl e)
              | Inr (db', pageCnt, chunkCnt) \<Rightarrow>
                  if chunkCnt = 0 then Some (db', Inl NoChunksGenerated)
                  else Some (putSiteFacts now db' d (extractFactsObject env pgs),
                             Inr (pageCnt, chunkCnt)))))"

definition buildRagIndex ::
  "Env \<Rightarrow> string \<Rightarrow> Db \<Rightarrow> string \<Rightarrow> string \<Rightarrow> (Db \<times> NetCall list \<times> (error + nat \<times> nat)) option" where
  "buildRagIndex env now db d site =
     (case scrapesite (web env) (SITE_DOMAIN env) (SCRAPER_MAX_PAGES env) (SCRAPER_CONCURRENCY env)
             (SCRAPER_EXTRA_URLS env) d of
        None \<Rightarrow> None
      | Some (pgs, cs) \<Rightarrow>
          (case indexPages env now db d site pgs of
             None \<Rightarrow> None
           | Some (db', r) \<Rightarrow> Some (db', cs, r)))"

record EnsureResult =
  er_siteName :: string
  er_pageCount :: nat
  er_chunkCount :: nat
  er_indexedAt :: string
  built :: bool

definition ensureBuild ::
  "Env \<Rightarrow> string \<Rightarrow> string \<Rightarrow> Db \<Rightarrow> string \<Rightarrow> string
     \<Rightarrow> (Db \<times> NetCall list \<times> (error + EnsureResult)) option" where
  \<comment> \<open>the second half of ensureRagIndex: \<open>const built = await buildRagIndex(...)\<close>\<close>
  "ensureBuild env now nowIso db d site =
     (case buildRagIndex env now db d site of
        None \<Rightarrow> None
      | Some (db', cs, Inl e) \<Rightarrow> Some (db', cs, Inl e)
      | Some (db', cs, Inr (pageCnt, chunkCnt)) \<Rightarrow>
          Some (db', cs,
                Inr \<lparr>er_siteName = site, er_pageCount = pageCnt, er_chunkCount = chunkCnt,
                     er_indexedAt = nowIso, built = True\<rparr>))"

definition ensureRagIndex ::
  "Env \<Rightarrow> string \<Rightarrow> string \<Rightarrow> Db \<Rightarrow> string \<Rightarrow> string \<Rightarrow> bool
     \<Rightarrow> (Db \<times> NetCall list \<times> (error + EnsureResult)) option" where
  \<comment> \<open>\<open>nowIso\<close> is \<open>new Date().toISOString()\<close>\<close>
  "ensureRagIndex env now nowIso db d site force =
     (case getRagMeta db d of
        Some meta \<Rightarrow>
          if \<not> force \<and> chunkCount meta > 0 then
            Some (db, [],
                  Inr \<lparr>er_siteName = (case siteName meta of
                                         None \<Rightarrow> site
                                       | Some n \<Rightarrow> if n = [] then site else n),
                       er_pageCount = pageCount meta, er_chunkCount = chunkCount meta,
                       er_indexedAt = indexedAt meta, built = False\<rparr>)
          else ensureBuild env now nowIso db d site
      | None \<Rightarrow> ensureBuild env now nowIso db d site)"

section \<open>An example index\<close>

definition demoDomain :: string where
  "demoDomain = ''https://acme.test''"

definition demoDb :: Db where
  \<comment> \<open>four chunks of three pages, as a rebuild at time \<open>t0\<close> stores them\<close>
  "demoDb =
     \<lparr>site_facts = Map.empty,
      rag_chunks =
        [\<lparr>domain = demoDomain, rc_url = ''https://acme.test/'', rc_title = ''Acme Plumbing'',
           chunkId = 0,
           rc_content = ''Acme Plumbing services include drain cleaning and pipe repair.'',
           updatedAt = ''t0''\<rparr>,
         \<lparr>domain = demoDomain, rc_url = ''https://acme.test/about'', rc_title = ''About Acme'',
           chunkId = 0, rc_content = ''Family owned since 1990.'', updatedAt = ''t0''\<rparr>,
         \<lparr>domain = demoDomain, rc_url = ''https://acme.test/drain'', rc_title = ''Drain cleaning'',
           chunkId = 0, rc_content = ''We clear any blocked drain fast.'', updatedAt = ''t0''\<rparr>,
         \<lparr>domain = demoDomain, rc_url = ''https://acme.test/drain'', rc_title = ''Drain cleaning'',
           chunkId = 1, rc_content = ''Call for a drain inspection today.'', updatedAt = ''t0''\<rparr>],
      rag_meta = Map.empty(demoDomain \<mapsto>
        \<lparr>siteName = Some ''Acme'', pageCount = 3, chunkCount = 4, indexedAt = ''t0''\<rparr>)\<rparr>"

definition demoWeb :: Web where
  \<comment> \<open>a site whose root does not answer and whose about page does; of the pending tasks
      the last one finishes first\<close>
  "demoWeb =
     \<lparr>fetchPage = (\<lambda>u. if u = ''https://acme.test/about'' then Some ''<about>'' else None),
      cheerio = (\<lambda>html. (''About Acme'', ''  Family owned   since 1990. '', [''/contact''])),
      normUrl = (\<lambda>href base.
         if href = ''https://acme.test'' \<or> href = ''/'' then Some ''https://acme.test/''
         else if take 1 href = ''/'' then Some (''https://acme.test'' @ href)
         else None),
      fetchSitemapUrls = (\<lambda>base. []),
      finishes = (\<lambda>pending. length pending - 1)\<rparr>"

definition demoEnv :: Env where
  "demoEnv =
     \<lparr>SITE_DOMAIN = ''https://example.com'', SCRAPER_MAX_PAGES = 0, SCRAPER_CONCURRENCY = 3,
      SCRAPER_EXTRA_URLS = [], RAG_CHUNK_SIZE = 1100, RAG_CHUNK_OVERLAP = 180,
      web = demoWeb, extractFactsObject = (\<lambda>pgs. ''{}'')\<rparr>"



section \<open>Properties of the chunker\<close>

lemma chunkLoop_last:
  "start < int (length s) \<Longrightarrow> int (length s) \<le> start + C \<Longrightarrow>
   chunkLoop C ov s start acc = Some (acc @ [slice s start (start + C)])"
  by (subst chunkLoop.simps) (simp add: Let_def min_def slice_def)

lemma chunkLoop_step:
  "start < int (length s) \<Longrightarrow> start + C < int (length s) \<Longrightarrow>
   chunkLoop C ov s start acc =
     chunkLoop C ov s (max 0 (start + C - ov)) (acc @ [slice s start (start + C)])"
  by (subst chunkLoop.simps) (simp add: Let_def min_def)

lemma chunkLoop_windows:
  assumes "0 \<le> ov" "ov < C"
  shows "0 \<le> start \<Longrightarrow> start < int (length s) \<Longrightarrow>
    \<exists>n\<ge>1. chunkLoop C ov s start acc =
             Some (acc @ map (\<lambda>k. slice s (start + int k * (C - ov)) (start + int k * (C - ov) + C)) [0..<n])
      \<and> int (length s) \<le> start + int (n - 1) * (C - ov) + C
      \<and> (\<forall>k. k + 1 < n \<longrightarrow> start + int k * (C - ov) + C < int (length s))"
proof (induction "nat (int (length s) - start)" arbitrary: start acc rule: less_induct)
  case less
  show ?case
  proof (cases "int (length s) \<le> start + C")
    case True
    have "chunkLoop C ov s start acc = Some (acc @ [slice s start (start + C)])"
      using less.prems True by (simp add: chunkLoop_last)
    then show ?thesis using True
      by (intro exI[of _ 1]) simp
  next
    case False
    let ?st = "start + (C - ov)"
    have step: "chunkLoop C ov s start acc = chunkLoop C ov s ?st (acc @ [slice s start (start + C)])"
      using chunkLoop_step[of start s C ov acc] less.prems False assms
      by (simp add: max_def algebra_simps)
    have lt: "?st < int (length s)" "0 \<le> ?st" using False assms less.prems by auto
    have "nat (int (length s) - ?st) < nat (int (length s) - start)"
      using assms lt by auto
    from less.hyps[OF this lt(2) lt(1), of "acc @ [slice s start (start + C)]"]
    obtain n where n: "n \<ge> 1"
      "chunkLoop C ov s ?st (acc @ [slice s start (start + C)]) =
         Some ((acc @ [slice s start (start + C)]) @
           map (\<lambda>k. slice s (?st + int k * (C - ov)) (?st + int k * (C - ov) + C)) [0..<n])"
      "int (length s) \<le> ?st + int (n - 1) * (C - ov) + C"
      "\<forall>k. k + 1 < n \<longrightarrow> ?st + int k * (C - ov) + C < int (length s)"
      by blast
    have m: "map (\<lambda>k. slice s (start + int k * (C - ov)) (start + int k * (C - ov) + C)) [0..<Suc n]
        = slice s start (start + C) #
          map (\<lambda>k. slice s (?st + int k * (C - ov)) (?st + int k * (C - ov) + C)) [0..<n]"
      by (simp add: map_upt_Suc algebra_simps del: upt_Suc)
    have a: "chunkLoop C ov s start acc =
        Some (acc @ map (\<lambda>k. slice s (start + int k * (C - ov)) (start + int k * (C - ov) + C)) [0..<Suc n])"
      unfolding m step n(2) by simp
    have b: "int (length s) \<le> start + int (Suc n - 1) * (C - ov) + C"
      using n(1,3) by (cases n) (auto simp: algebra_simps)
    have c: "\<forall>k. k + 1 < Suc n \<longrightarrow> start + int k * (C - ov) + C < int (length s)"
    proof (intro allI impI)
      fix k assume k: "k + 1 < Suc n"
      show "start + int k * (C - ov) + C < int (length s)"
      proof (cases k)
        case 0 then show ?thesis using False by simp
      next
        case (Suc j)
        then have "j + 1 < n" using k by simp
        with n(4) have "?st + int j * (C - ov) + C < int (length s)" by blast
        then show ?thesis using Suc by (simp add: algebra_simps)
      qed
    qed
    show ?thesis
      using a b c by (intro exI[of _ "Suc n"]) (simp del: upt_Suc)
  qed
qed

lemma chunkLoop_stuck:
  assumes "chunkLoop C ov s start acc = Some y"
  shows "\<not> (start = 0 \<and> C \<le> ov \<and> C < int (length s) \<and> s \<noteq> [])"
proof (rule chunkLoop.raw_induct[where P = "\<lambda>C ov s start acc y. \<not> (start = 0 \<and> C \<le> ov \<and> C < int (length s) \<and> s \<noteq> [])", OF _ assms], goal_cases)
  case (1 f C ov s start acc y)
  show ?case
  proof
    assume a: "start = 0 \<and> C \<le> ov \<and> C < int (length s) \<and> s \<noteq> []"
    then have "f C ov s 0 (acc @ [slice s 0 C]) = Some y"
      using 1(2) by (simp add: Let_def min_def max_def split: if_splits)
    from 1(1)[OF this] a show False by simp
  qed
qed

lemma chunkLoop_diverges:
  "C \<le> ov \<Longrightarrow> C < int (length s) \<Longrightarrow> s \<noteq> [] \<Longrightarrow> chunkLoop C ov s 0 acc = None"
  using chunkLoop_stuck[of C ov s 0 acc] by (cases "chunkLoop C ov s 0 acc") auto

lemma slice_nonneg:
  "0 \<le> a \<Longrightarrow> 0 \<le> b \<Longrightarrow> slice s a b = take (nat b - nat a) (drop (nat a) s)"
  by (auto simp: slice_def Let_def min_def nat_diff_distrib')

lemma window_take_drop:
  assumes "0 \<le> ov" "ov < C"
  shows "slice s (int k * (C - ov)) (int k * (C - ov) + C) = take (nat C) (drop (k * nat (C - ov)) s)"
proof -
  have "0 \<le> int k * (C - ov)" using assms by simp
  moreover have "nat (int k * (C - ov)) = k * nat (C - ov)" using assms by (simp add: nat_mult_distrib)
  moreover have "nat (int k * (C - ov) + C) - nat (int k * (C - ov)) = nat C"
    using assms calculation(1) by (simp add: nat_add_distrib)
  ultimately show ?thesis using assms by (simp add: slice_nonneg)
qed

lemma windows_cover:
  assumes "c = d + v"
  shows "take c s @ concat (map (\<lambda>k. drop v (take c (drop (k * d) s))) [1..<Suc n]) = take (n * d + c) s"
proof (induction n)
  case 0 show ?case by simp
next
  case (Suc n)
  have f: "drop v (take c (drop (Suc n * d) s)) = take d (drop (n * d + c) s)"
    using assms by (simp add: drop_take algebra_simps)
  have "take c s @ concat (map (\<lambda>k. drop v (take c (drop (k * d) s))) [1..<Suc (Suc n)])
      = (take c s @ concat (map (\<lambda>k. drop v (take c (drop (k * d) s))) [1..<Suc n]))
          @ drop v (take c (drop (Suc n * d) s))"
    by simp
  also have "\<dots> = take (n * d + c) s @ take d (drop (n * d + c) s)"
    unfolding Suc.IH f ..
  also have "\<dots> = take (n * d + c + d) s"
    by (simp only: take_add)
  finally show ?case by (simp add: algebra_simps)
qed

lemma insertChunks_rows:
  "insertChunks now d page i cs (rows, cnt) = Inr (rows', cnt') \<Longrightarrow>
   rows' = rows @ map (\<lambda>(j, c). \<lparr>domain = d, rc_url = pp_url page,
                  rc_title = (if pp_title page = [] then ''Untitled'' else pp_title page),
                  chunkId = j, rc_content = c, updatedAt = now\<rparr>) (enumerate i cs)
   \<and> cnt' = cnt + length cs"
proof (induction cs arbitrary: i rows cnt)
  case Nil then show ?case by simp
next
  case (Cons c cs)
  let ?t = "if pp_title page = [] then ''Untitled'' else pp_title page"
  let ?r = "\<lparr>domain = d, rc_url = pp_url page, rc_title = ?t, chunkId = i, rc_content = c, updatedAt = now\<rparr>"
  from Cons.prems have ins: "insertStmt now d (pp_url page) ?t i c rows = Inr (rows @ [?r])"
    by (auto simp: insertStmt_def Let_def split: if_splits sum.splits)
  with Cons.prems have "insertChunks now d page (i + 1) cs (rows @ [?r], cnt + 1) = Inr (rows', cnt')"
    by simp
  from Cons.IH[OF this] show ?case by simp
qed

text \<open>
  Claim C3, as amended. A text whose normalised form is not empty and no longer than the chunk
  size gives exactly one chunk, the normalised text. A text whose normalised form is empty
  (an empty or all-whitespace text, of length 0) gives no chunk at all, whatever the chunk
  size and the overlap: the first guard of \<open>chunkText\<close>.
\<close>

theorem chunkText_short:
  "(normalizeText text \<noteq> [] \<and> int (length (normalizeText text)) \<le> CHUNK_SIZE \<longrightarrow>
      chunkText CHUNK_SIZE CHUNK_OVERLAP text = Some [normalizeText text]) \<and>
   (normalizeText text = [] \<longrightarrow> chunkText CHUNK_SIZE CHUNK_OVERLAP text = Some [])"
  by (simp add: chunkText_def)

theorem chunkText_short_witness:
  "normalizeText ''  Acme   Plumbing '' \<noteq> [] \<and> int (length (normalizeText ''  Acme   Plumbing '')) \<le> 1100
   \<and> chunkText 1100 180 ''  Acme   Plumbing '' = Some [''Acme Plumbing'']
   \<and> normalizeText '' '' = [] \<and> chunkText 5 2 '' '' = Some []"
proof -
  have n: "normalizeText ''  Acme   Plumbing '' = ''Acme Plumbing''"
    by (simp add: normalizeText_def trim_def is_space_def)
  have h1: "normalizeText ''  Acme   Plumbing '' \<noteq> []" and h2: "int (length (normalizeText ''  Acme   Plumbing '')) \<le> 1100"
    by (simp_all add: n)
  have h3: "normalizeText '' '' = []"
    by (simp add: normalizeText_def trim_def is_space_def)
  from chunkText_short[of "''  Acme   Plumbing ''" 1100 180] h1 h2
  have 1: "chunkText 1100 180 ''  Acme   Plumbing '' = Some [''Acme Plumbing'']"
    by (simp add: n)
  from chunkText_short[of "'' ''" 5 2] h3
  have 2: "chunkText 5 2 '' '' = Some []" by blast
  from h1 h2 h3 1 2 show ?thesis by blast
qed

text \<open>A text of three spaces: its normalised form has length 0, and no chunk is emitted.\<close>

theorem chunkText_blank_counterexample:
  "int (length (normalizeText ''   '')) \<le> 1100 \<and> chunkText 1100 180 ''   '' = Some [] \<and>
   chunkText 1100 180 ''   '' \<noteq> Some [normalizeText ''   '']"
  by (simp add: chunkText_def normalizeText_def trim_def is_space_def)

text \<open>
  Claim C9. With \<open>0 \<le> overlap < chunk size\<close>, \<open>chunkText\<close> returns for every text, and an
  iteration of the windowing loop that does not reach the end of the text moves the window
  start up by \<open>chunk size - overlap\<close>, which is positive. With \<open>overlap \<ge> chunk size\<close>, on a
  text whose normalised form is not empty and longer than the chunk size, the loop never
  returns: the window start stays at 0.
\<close>

theorem chunkText_terminates:
  "(0 \<le> CHUNK_OVERLAP \<and> CHUNK_OVERLAP < CHUNK_SIZE \<longrightarrow>
      (\<exists>chunks. chunkText CHUNK_SIZE CHUNK_OVERLAP text = Some chunks) \<and>
      (\<forall>start acc. 0 \<le> start \<and> start + CHUNK_SIZE < int (length (normalizeText text)) \<longrightarrow>
         chunkLoop CHUNK_SIZE CHUNK_OVERLAP (normalizeText text) start acc =
         chunkLoop CHUNK_SIZE CHUNK_OVERLAP (normalizeText text) (start + (CHUNK_SIZE - CHUNK_OVERLAP))
           (acc @ [slice (normalizeText text) start (start + CHUNK_SIZE)]) \<and>
         start < start + (CHUNK_SIZE - CHUNK_OVERLAP))) \<and>
   (CHUNK_SIZE \<le> CHUNK_OVERLAP \<and> CHUNK_SIZE < int (length (normalizeText text)) \<and> normalizeText text \<noteq> [] \<longrightarrow>
      chunkText CHUNK_SIZE CHUNK_OVERLAP text = None)"
proof (intro conjI impI allI)
  assume a: "0 \<le> CHUNK_OVERLAP \<and> CHUNK_OVERLAP < CHUNK_SIZE"
  show "\<exists>chunks. chunkText CHUNK_SIZE CHUNK_OVERLAP text = Some chunks"
  proof (cases "normalizeText text = [] \<or> int (length (normalizeText text)) \<le> CHUNK_SIZE")
    case True
    then show ?thesis by (auto simp: chunkText_def Let_def)
  next
    case False
    then have "0 < int (length (normalizeText text))" by simp
    from chunkLoop_windows[of CHUNK_OVERLAP CHUNK_SIZE 0 "normalizeText text" "[]"] a this
    obtain ws where "chunkLoop CHUNK_SIZE CHUNK_OVERLAP (normalizeText text) 0 [] = Some ws"
      by auto
    with False show ?thesis by (auto simp: chunkText_def Let_def)
  qed
next
  fix start acc
  assume a: "0 \<le> CHUNK_OVERLAP \<and> CHUNK_OVERLAP < CHUNK_SIZE"
    and b: "0 \<le> start \<and> start + CHUNK_SIZE < int (length (normalizeText text))"
  then have "start < int (length (normalizeText text))" by linarith
  from chunkLoop_step[OF this, of CHUNK_SIZE CHUNK_OVERLAP acc] a b
  show "chunkLoop CHUNK_SIZE CHUNK_OVERLAP (normalizeText text) start acc =
         chunkLoop CHUNK_SIZE CHUNK_OVERLAP (normalizeText text) (start + (CHUNK_SIZE - CHUNK_OVERLAP))
           (acc @ [slice (normalizeText text) start (start + CHUNK_SIZE)])"
    by (simp add: max_def algebra_simps)
  show "start < start + (CHUNK_SIZE - CHUNK_OVERLAP)" using a by simp
next
  assume "CHUNK_SIZE \<le> CHUNK_OVERLAP \<and> CHUNK_SIZE < int (length (normalizeText text)) \<and> normalizeText text \<noteq> []"
  then show "chunkText CHUNK_SIZE CHUNK_OVERLAP text = None"
    by (simp add: chunkText_def Let_def chunkLoop_diverges)
qed

theorem chunkText_terminates_witness:
  "(\<exists>chunks. chunkText 1100 180 ''Acme Plumbing: drain cleaning'' = Some chunks) \<and>
   (chunkLoop 5 2 (normalizeText ''abcdefghijkl'') 3 [''abcde''] =
      chunkLoop 5 2 (normalizeText ''abcdefghijkl'') 6 [''abcde'', ''defgh'']) \<and>
   chunkText 5 5 ''abcdefghijkl'' = None"
proof -
  have n: "normalizeText ''abcdefghijkl'' = ''abcdefghijkl''"
    by (simp add: normalizeText_def trim_def is_space_def)
  have 1: "\<exists>chunks. chunkText 1100 180 ''Acme Plumbing: drain cleaning'' = Some chunks"
    using chunkText_terminates[of 180 1100 "''Acme Plumbing: drain cleaning''"] by simp
  have 2: "chunkLoop 5 2 (normalizeText ''abcdefghijkl'') 3 [''abcde''] =
      chunkLoop 5 2 (normalizeText ''abcdefghijkl'') 6 [''abcde'', ''defgh'']"
    using chunkText_terminates[of 2 5 "''abcdefghijkl''"] by (simp add: n slice_def)
  have 3: "chunkText 5 5 ''abcdefghijkl'' = None"
    using chunkText_terminates[of 5 5 "''abcdefghijkl''"] by (simp add: n)
  from 1 2 3 show ?thesis by blast
qed

lemma windows_facts:
  fixes s :: string and c d v n :: nat
  assumes c: "c = d + v" and d: "0 < d" and n: "1 \<le> n"
    and fin: "length s \<le> (n - 1) * d + c"
    and full: "\<forall>k. k + 1 < n \<longrightarrow> k * d + c < length s"
    and long: "c < length s"
  defines "ws \<equiv> map (\<lambda>k. take c (drop (k * d) s)) [0..<n]"
  shows "2 \<le> length ws"
    and "\<forall>k. k + 1 < length ws \<longrightarrow> length (ws ! k) = c
            \<and> drop d (ws ! k) = take v (ws ! (k + 1)) \<and> length (take v (ws ! (k + 1))) = v"
    and "length (last ws) \<le> c" and "last ws \<noteq> []"
    and "(length ws - 1) * d + length (last ws) = length s"
    and "hd ws @ concat (map (drop v) (tl ws)) = s"
proof -
  have len: "length ws = n" by (simp add: ws_def)
  show n2: "2 \<le> length ws"
  proof (rule ccontr)
    assume "\<not> 2 \<le> length ws"
    then have "n = 1" using n len by simp
    with fin long show False by simp
  qed
  show "\<forall>k. k + 1 < length ws \<longrightarrow> length (ws ! k) = c
            \<and> drop d (ws ! k) = take v (ws ! (k + 1)) \<and> length (take v (ws ! (k + 1))) = v"
  proof (intro allI impI)
    fix k assume k: "k + 1 < length ws"
    then have kn: "k + 1 < n" "k < n" using len by simp_all
    with full have b: "k * d + c < length s" by blast
    have wk: "ws ! k = take c (drop (k * d) s)" using kn by (simp add: ws_def)
    have wk1: "ws ! Suc k = take c (drop ((k + 1) * d) s)" using kn by (simp add: ws_def)
    have 1: "length (ws ! k) = c" using b by (simp add: wk)
    have 2: "drop d (ws ! k) = take v (ws ! (k + 1))"
      using c by (simp add: wk wk1 drop_take algebra_simps min_def)
    have 3: "length (take v (ws ! (k + 1))) = v"
      using b c by (simp add: wk1 algebra_simps)
    from 1 2 3 show "length (ws ! k) = c
            \<and> drop d (ws ! k) = take v (ws ! (k + 1)) \<and> length (take v (ws ! (k + 1))) = v"
      by blast
  qed
  have ne: "ws \<noteq> []" using n2 by auto
  have lastw: "last ws = take c (drop ((n - 1) * d) s)"
    using n len ne by (simp add: last_conv_nth) (simp add: ws_def)
  have "n - 2 + 1 < n" using n2 len by simp
  with full have "(n - 2) * d + c < length s" by blast
  moreover have "(n - 1) * d = (n - 2) * d + d" using n2 len
    by (cases n rule: nat.exhaust; cases "n - 1") (simp_all add: algebra_simps)
  ultimately have lt: "(n - 1) * d < length s" using c by simp
  show "length (last ws) \<le> c" by (simp add: lastw)
  show "last ws \<noteq> []" using lt d long c by (simp add: lastw)
  show "(length ws - 1) * d + length (last ws) = length s"
    using fin lt by (simp add: lastw len min_def)
  have hdw: "hd ws = take c s" using n by (simp add: ws_def hd_map hd_upt)
  have "tl ws = map (\<lambda>k. take c (drop (k * d) s)) [1..<n]"
    by (simp add: ws_def map_tl[symmetric] tl_upt)
  then have "hd ws @ concat (map (drop v) (tl ws))
      = take c s @ concat (map (\<lambda>k. drop v (take c (drop (k * d) s))) [1..<Suc (n - 1)])"
    using n by (simp add: hdw comp_def)
  also have "\<dots> = take ((n - 1) * d + c) s" using c by (rule windows_cover)
  also have "\<dots> = s" using fin by simp
  finally show "hd ws @ concat (map (drop v) (tl ws)) = s" .
qed

lemma insertChunks_ok:
  assumes "\<forall>r\<in>set rows. \<not> (domain r = d \<and> rc_url r = pp_url page \<and> i \<le> chunkId r)"
  shows "insertChunks now d page i cs (rows, cnt) =
     Inr (rows @ map (\<lambda>(j, c). \<lparr>domain = d, rc_url = pp_url page,
                  rc_title = (if pp_title page = [] then ''Untitled'' else pp_title page),
                  chunkId = j, rc_content = c, updatedAt = now\<rparr>) (enumerate i cs),
          cnt + length cs)"
  using assms
proof (induction cs arbitrary: i rows cnt)
  case Nil then show ?case by simp
next
  case (Cons c cs)
  let ?t = "if pp_title page = [] then ''Untitled'' else pp_title page"
  let ?r = "\<lparr>domain = d, rc_url = pp_url page, rc_title = ?t, chunkId = i, rc_content = c, updatedAt = now\<rparr>"
  have "chunkKey ?r \<notin> set (map chunkKey rows)"
    using Cons.prems by (auto simp: chunkKey_def)
  then have ins: "insertStmt now d (pp_url page) ?t i c rows = Inr (rows @ [?r])"
    by (simp add: insertStmt_def Let_def)
  have "\<forall>r\<in>set (rows @ [?r]). \<not> (domain r = d \<and> rc_url r = pp_url page \<and> i + 1 \<le> chunkId r)"
    using Cons.prems by auto
  from Cons.IH[OF this, of "cnt + 1"] ins show ?case by simp
qed

lemma insertChunks_ids:
  assumes "insertChunks now d page 0 cs (rows, cnt) = Inr (rows', cnt')"
  shows "map chunkId (drop (length rows) rows') = [0..<length cs]"
    and "map rc_content (drop (length rows) rows') = cs"
proof -
  let ?mk = "\<lambda>(j, c). \<lparr>domain = d, rc_url = pp_url page,
                  rc_title = (if pp_title page = [] then ''Untitled'' else pp_title page),
                  chunkId = j, rc_content = c, updatedAt = now\<rparr>"
  from insertChunks_rows[OF assms] have r: "drop (length rows) rows' = map ?mk (enumerate 0 cs)"
    by simp
  have "map chunkId (map ?mk (enumerate 0 cs)) = map fst (enumerate 0 cs)"
    by (simp add: comp_def case_prod_beta)
  then show "map chunkId (drop (length rows) rows') = [0..<length cs]"
    by (simp add: r del: map_map)
  have "map rc_content (map ?mk (enumerate 0 cs)) = map snd (enumerate 0 cs)"
    by (simp add: comp_def case_prod_beta)
  then show "map rc_content (drop (length rows) rows') = cs"
    by (simp add: r del: map_map)
qed

text \<open>
  Claim C4. With \<open>0 \<le> overlap < chunk size\<close> (180 and 1100 by default) and a normalised text
  longer than the chunk size, \<open>chunkText\<close> returns at least two chunks; chunk \<open>k\<close> is the window
  of the text that starts at \<open>k * (chunk size - overlap)\<close> and is \<open>chunk size\<close> long, cut at the
  end of the text. Every chunk but the last has length exactly \<open>chunk size\<close>, and its last
  \<open>overlap\<close> characters are the first \<open>overlap\<close> characters of the next chunk. The last chunk
  is not empty, is at most \<open>chunk size\<close> long and ends where the text ends. The first chunk
  followed by the other chunks without their first \<open>overlap\<close> characters is the whole text: no
  gap. The store inserts the chunks of a page, into rows that hold nothing of that page, with
  the chunk ids 0, 1, 2, ... in the order of emission.
\<close>

theorem chunkText_windows:
  assumes ov0: "0 \<le> CHUNK_OVERLAP" and ovC: "CHUNK_OVERLAP < CHUNK_SIZE"
    and long: "CHUNK_SIZE < int (length (normalizeText text))"
  shows "\<exists>chunks. chunkText CHUNK_SIZE CHUNK_OVERLAP text = Some chunks \<and> 2 \<le> length chunks \<and>
     (\<forall>k<length chunks. chunks ! k =
        slice (normalizeText text) (int k * (CHUNK_SIZE - CHUNK_OVERLAP))
          (int k * (CHUNK_SIZE - CHUNK_OVERLAP) + CHUNK_SIZE)) \<and>
     (\<forall>k. k + 1 < length chunks \<longrightarrow>
        length (chunks ! k) = nat CHUNK_SIZE \<and>
        drop (nat (CHUNK_SIZE - CHUNK_OVERLAP)) (chunks ! k) = take (nat CHUNK_OVERLAP) (chunks ! (k + 1)) \<and>
        length (take (nat CHUNK_OVERLAP) (chunks ! (k + 1))) = nat CHUNK_OVERLAP) \<and>
     length (last chunks) \<le> nat CHUNK_SIZE \<and> last chunks \<noteq> [] \<and>
     int (length chunks - 1) * (CHUNK_SIZE - CHUNK_OVERLAP) + int (length (last chunks))
       = int (length (normalizeText text)) \<and>
     hd chunks @ concat (map (drop (nat CHUNK_OVERLAP)) (tl chunks)) = normalizeText text \<and>
     (\<forall>now d page rows cnt.
        (\<forall>r\<in>set rows. \<not> (domain r = d \<and> rc_url r = pp_url page)) \<longrightarrow>
        (\<exists>rows'. insertChunks now d page 0 chunks (rows, cnt) = Inr (rows', cnt + length chunks) \<and>
           take (length rows) rows' = rows \<and>
           map chunkId (drop (length rows) rows') = [0..<length chunks] \<and>
           map rc_content (drop (length rows) rows') = chunks))"
proof -
  define s where "s = normalizeText text"
  define c where "c = nat CHUNK_SIZE"
  define d where "d = nat (CHUNK_SIZE - CHUNK_OVERLAP)"
  define v where "v = nat CHUNK_OVERLAP"
  have cpos: "0 < CHUNK_SIZE" using ov0 ovC by simp
  have ne: "s \<noteq> []" using long cpos by (auto simp: s_def)
  have c: "c = d + v" and dpos: "0 < d" using ov0 ovC by (simp_all add: c_def d_def v_def)
  have ci: "int c = CHUNK_SIZE" and di: "int d = CHUNK_SIZE - CHUNK_OVERLAP" and vi: "int v = CHUNK_OVERLAP"
    using ov0 ovC by (simp_all add: c_def d_def v_def)
  have "0 < int (length s)" using ne by simp
  from chunkLoop_windows[OF ov0 ovC order_refl this, of "[]"]
  obtain n where n: "1 \<le> n"
    and run: "chunkLoop CHUNK_SIZE CHUNK_OVERLAP s 0 [] =
      Some (map (\<lambda>k. slice s (int k * (CHUNK_SIZE - CHUNK_OVERLAP))
                         (int k * (CHUNK_SIZE - CHUNK_OVERLAP) + CHUNK_SIZE)) [0..<n])"
    and fin: "int (length s) \<le> int (n - 1) * (CHUNK_SIZE - CHUNK_OVERLAP) + CHUNK_SIZE"
    and full: "\<forall>k. k + 1 < n \<longrightarrow> int k * (CHUNK_SIZE - CHUNK_OVERLAP) + CHUNK_SIZE < int (length s)"
    by auto
  define chunks where "chunks = map (\<lambda>k. slice s (int k * (CHUNK_SIZE - CHUNK_OVERLAP))
                         (int k * (CHUNK_SIZE - CHUNK_OVERLAP) + CHUNK_SIZE)) [0..<n]"
  have res: "chunkText CHUNK_SIZE CHUNK_OVERLAP text = Some chunks"
    using long ne run by (simp add: chunkText_def Let_def s_def[symmetric] chunks_def)
  have ws: "chunks = map (\<lambda>k. take c (drop (k * d) s)) [0..<n]"
    unfolding chunks_def c_def d_def by (simp add: window_take_drop[OF ov0 ovC])
  have fin': "length s \<le> (n - 1) * d + c"
  proof -
    have "int (length s) \<le> int ((n - 1) * d + c)" using fin by (simp add: ci di)
    then show ?thesis by linarith
  qed
  have full': "\<forall>k. k + 1 < n \<longrightarrow> k * d + c < length s"
  proof (intro allI impI)
    fix k assume "k + 1 < n"
    with full have "int (k * d + c) < int (length s)" by (simp add: ci di)
    then show "k * d + c < length s" by linarith
  qed
  have long': "c < length s" using long ci by (simp add: s_def)
  note F = windows_facts[OF c dpos n fin' full' long', folded ws]
  have 1: "\<forall>k<length chunks. chunks ! k =
        slice (normalizeText text) (int k * (CHUNK_SIZE - CHUNK_OVERLAP))
          (int k * (CHUNK_SIZE - CHUNK_OVERLAP) + CHUNK_SIZE)"
    by (simp add: chunks_def s_def)
  have 2: "\<forall>k. k + 1 < length chunks \<longrightarrow>
        length (chunks ! k) = nat CHUNK_SIZE \<and>
        drop (nat (CHUNK_SIZE - CHUNK_OVERLAP)) (chunks ! k) = take (nat CHUNK_OVERLAP) (chunks ! (k + 1)) \<and>
        length (take (nat CHUNK_OVERLAP) (chunks ! (k + 1))) = nat CHUNK_OVERLAP"
    using F(2) by (simp only: c_def d_def v_def)
  have 3: "length (last chunks) \<le> nat CHUNK_SIZE" using F(3) by (simp only: c_def)
  have "int ((length chunks - 1) * d + length (last chunks)) = int (length s)"
    using F(5) by simp
  then have 4: "int (length chunks - 1) * (CHUNK_SIZE - CHUNK_OVERLAP) + int (length (last chunks))
       = int (length (normalizeText text))"
    by (simp add: di s_def)
  have 5: "hd chunks @ concat (map (drop (nat CHUNK_OVERLAP)) (tl chunks)) = normalizeText text"
    using F(6) by (simp only: v_def s_def)
  have 6: "\<forall>now d page rows cnt.
        (\<forall>r\<in>set rows. \<not> (domain r = d \<and> rc_url r = pp_url page)) \<longrightarrow>
        (\<exists>rows'. insertChunks now d page 0 chunks (rows, cnt) = Inr (rows', cnt + length chunks) \<and>
           take (length rows) rows' = rows \<and>
           map chunkId (drop (length rows) rows') = [0..<length chunks] \<and>
           map rc_content (drop (length rows) rows') = chunks)"
  proof (intro allI impI)
    fix now d :: string and page :: PreparedPage and rows :: "RagChunk list" and cnt :: nat
    assume free: "\<forall>r\<in>set rows. \<not> (domain r = d \<and> rc_url r = pp_url page)"
    then have "\<forall>r\<in>set rows. \<not> (domain r = d \<and> rc_url r = pp_url page \<and> 0 \<le> chunkId r)"
      by blast
    from insertChunks_ok[OF this, of now chunks cnt]
    obtain rows' where r: "insertChunks now d page 0 chunks (rows, cnt) = Inr (rows', cnt + length chunks)"
      by blast
    from insertChunks_rows[OF r] have "take (length rows) rows' = rows" by simp
    with r insertChunks_ids[OF r]
    show "\<exists>rows'. insertChunks now d page 0 chunks (rows, cnt) = Inr (rows', cnt + length chunks) \<and>
           take (length rows) rows' = rows \<and>
           map chunkId (drop (length rows) rows') = [0..<length chunks] \<and>
           map rc_content (drop (length rows) rows') = chunks"
      by blast
  qed
  from res F(1) 1 2 3 F(4) 4 5 6 show ?thesis by blast
qed



theorem chunkText_windows_witness:
  "(0::int) \<le> 2 \<and> (2::int) < 5 \<and> 5 < int (length (normalizeText ''abcdefghijkl'')) \<and>
   (\<exists>chunks rows'. chunkText 5 2 ''abcdefghijkl'' = Some chunks \<and>
      chunks = [''abcde'', ''defgh'', ''ghijk'', ''jkl''] \<and>
      length (chunks ! 0) = 5 \<and> drop 3 (chunks ! 0) = take 2 (chunks ! 1) \<and>
      hd chunks @ concat (map (drop 2) (tl chunks)) = ''abcdefghijkl'' \<and>
      insertChunks ''t1'' ''d'' \<lparr>pp_url = ''u'', pp_title = ''T'', chunks = chunks\<rparr> 0 chunks
        ([], 0) = Inr (rows', 4) \<and>
      map chunkId rows' = [0, 1, 2, 3] \<and> map rc_content rows' = chunks)"
proof -
  let ?page = "\<lambda>cs. \<lparr>pp_url = ''u'', pp_title = ''T'', chunks = cs\<rparr>"
  have n: "normalizeText ''abcdefghijkl'' = ''abcdefghijkl''"
    by (simp add: normalizeText_def trim_def is_space_def)
  have h1: "(0::int) \<le> 2" and h2: "(2::int) < 5"
    and h3: "5 < int (length (normalizeText ''abcdefghijkl''))"
    by (simp_all add: n)
  have ev: "chunkText 5 2 ''abcdefghijkl'' = Some [''abcde'', ''defgh'', ''ghijk'', ''jkl'']"
    by code_simp
  from chunkText_windows[OF h1 h2 h3]
  obtain cs where c: "chunkText 5 2 ''abcdefghijkl'' = Some cs" "2 \<le> length cs"
    "\<forall>k. k + 1 < length cs \<longrightarrow>
         length (cs ! k) = nat 5 \<and> drop (nat (5 - 2)) (cs ! k) = take (nat 2) (cs ! (k + 1)) \<and>
        length (take (nat 2) (cs ! (k + 1))) = nat 2"
    "hd cs @ concat (map (drop (nat 2)) (tl cs)) = normalizeText ''abcdefghijkl''"
    "\<forall>now d page rows cnt.
        (\<forall>r\<in>set rows. \<not> (domain r = d \<and> rc_url r = pp_url page)) \<longrightarrow>
        (\<exists>rows'. insertChunks now d page 0 cs (rows, cnt) = Inr (rows', cnt + length cs) \<and>
           take (length rows) rows' = rows \<and>
           map chunkId (drop (length rows) rows') = [0..<length cs] \<and>
           map rc_content (drop (length rows) rows') = cs)"
    by blast
  from c(1) ev have cs: "cs = [''abcde'', ''defgh'', ''ghijk'', ''jkl'']" by simp
  from c(2) have "0 + 1 < length cs" by simp
  with c(3) have ov: "length (cs ! 0) = nat 5 \<and>
      drop (nat (5 - 2)) (cs ! 0) = take (nat 2) (cs ! (0 + 1))"
    by blast
  have "\<forall>r\<in>set ([] :: RagChunk list). \<not> (domain r = ''d'' \<and> rc_url r = pp_url (?page cs))"
    by simp
  with c(5) obtain rows' where
    ins: "insertChunks ''t1'' ''d'' (?page cs) 0 cs ([], 0) = Inr (rows', 0 + length cs)"
      "map chunkId (drop (length ([] :: RagChunk list)) rows') = [0..<length cs]"
      "map rc_content (drop (length ([] :: RagChunk list)) rows') = cs"
    by blast
  have up: "[0..<length cs] = [0, 1, 2, 3]" unfolding cs by (simp add: upt_rec)
  have len: "length cs = 4" unfolding cs by simp
  have i1: "insertChunks ''t1'' ''d'' (?page cs) 0 cs ([], 0) = Inr (rows', 4)"
    using ins(1) len by simp
  have i2: "map chunkId rows' = [0, 1, 2, 3]" using ins(2) up by simp
  have i3: "map rc_content rows' = cs" using ins(3) by simp
  have w1: "length (cs ! 0) = 5" "drop 3 (cs ! 0) = take 2 (cs ! 1)" using ov by simp_all
  have w2: "hd cs @ concat (map (drop 2) (tl cs)) = ''abcdefghijkl''" using c(4) by (simp add: n)
  show ?thesis
    using h1 h2 h3 c(1) cs w1 w2 i1 i2 i3
    by (intro conjI exI[of _ cs] exI[of _ rows']) (simp_all only:)
qed

section \<open>Properties of the index store\<close>

lemma pageRows_domain: "r \<in> set (pageRows now d p) \<Longrightarrow> domain r = d \<and> rc_url r = pp_url p"
  by (auto simp: pageRows_def)

lemma insertPages_ok:
  assumes "distinct (map pp_url pps)"
    and "\<forall>r\<in>set rows. domain r = d \<longrightarrow> rc_url r \<notin> pp_url ` set pps"
  shows "insertPages now d pps (rows, pc, cc) =
     Inr (rows @ concat (map (pageRows now d) pps), pc + length pps,
          cc + sum_list (map (\<lambda>p. length (chunks p)) pps))"
  using assms
proof (induction pps arbitrary: rows pc cc)
  case Nil then show ?case by simp
next
  case (Cons p ps)
  have "\<forall>r\<in>set rows. \<not> (domain r = d \<and> rc_url r = pp_url p \<and> 0 \<le> chunkId r)"
    using Cons.prems(2) by auto
  from insertChunks_ok[OF this, of now "chunks p" cc]
  have 1: "insertChunks now d p 0 (chunks p) (rows, cc) = Inr (rows @ pageRows now d p, cc + length (chunks p))"
    by (simp add: pageRows_def)
  have d: "distinct (map pp_url ps)" using Cons.prems(1) by simp
  have "\<forall>r\<in>set (rows @ pageRows now d p). domain r = d \<longrightarrow> rc_url r \<notin> pp_url ` set ps"
    using Cons.prems by (auto dest: pageRows_domain)
  from Cons.IH[OF d this, of "pc + 1" "cc + length (chunks p)"] 1
  show ?case by simp
qed

lemma pageRows_sorted: "sorted (map (\<lambda>r. (rc_url r, chunkId r)) (pageRows now d p))"
proof -
  have "map (\<lambda>r. (rc_url r, chunkId r)) (pageRows now d p)
      = map (\<lambda>x. (pp_url p, fst x)) (enumerate 0 (chunks p))"
    by (simp add: pageRows_def comp_def case_prod_beta)
  also have "\<dots> = map (\<lambda>j. (pp_url p, j)) (map fst (enumerate 0 (chunks p)))"
    by (simp only: map_map comp_def)
  also have "\<dots> = map (\<lambda>j. (pp_url p, j)) [0..<length (chunks p)]"
    by (simp only: map_fst_enumerate add_0)
  finally show ?thesis
    by (simp add: sorted_map sorted_wrt_iff_nth_less)
qed

lemma filter_url_pageRows:
  assumes "distinct (map pp_url pps)" "p \<in> set pps"
  shows "filter (\<lambda>r. rc_url r = pp_url p) (concat (map (pageRows now d) pps)) = pageRows now d p"
  using assms
proof (induction pps)
  case Nil then show ?case by simp
next
  case (Cons q qs)
  have own: "\<And>x. filter (\<lambda>r. rc_url r = pp_url x) (pageRows now d x) = pageRows now d x"
    by (auto simp: filter_id_conv dest: pageRows_domain)
  have other: "\<And>x y. pp_url x \<noteq> pp_url y \<Longrightarrow> filter (\<lambda>r. rc_url r = pp_url y) (pageRows now d x) = []"
    by (auto simp: filter_empty_conv dest: pageRows_domain)
  show ?case
  proof (cases "p = q")
    case True
    have "\<forall>x\<in>set qs. pp_url x \<noteq> pp_url q" using Cons.prems(1) by (auto simp: image_iff)
    then have "filter (\<lambda>r. rc_url r = pp_url q) (concat (map (pageRows now d) qs)) = []"
      by (auto simp: filter_empty_conv dest: pageRows_domain)
    then show ?thesis using True own by simp
  next
    case False
    then have "p \<in> set qs" using Cons.prems(2) by simp
    moreover from this have "pp_url q \<noteq> pp_url p" using Cons.prems(1) by auto
    ultimately show ?thesis using Cons other by simp
  qed
qed

text \<open>
  Claim C5. For pages with pairwise distinct urls, \<open>replaceRagChunks\<close> succeeds on every
  database, and \<open>getRagChunks\<close> on the database it leaves returns the rows of the new pages
  sorted by (url, chunkId): the rows returned are exactly the new rows (as a set and in number),
  so nothing stored by an earlier rebuild of the domain is left, and the rows of each page are
  its chunks in order with the chunk ids 0, 1, 2, ...
\<close>

theorem replaceRagChunks_getRagChunks:
  assumes "distinct (map pp_url pps)"
  shows "\<exists>db'. replaceRagChunks now db d site pps =
           Inr (db', length pps, sum_list (map (\<lambda>p. length (chunks p)) pps)) \<and>
      getRagChunks db' d =
        sort_key (\<lambda>r. (rc_url r, chunkId r)) (concat (map (pageRows now d) pps)) \<and>
      sorted (map (\<lambda>r. (rc_url r, chunkId r)) (getRagChunks db' d)) \<and>
      set (getRagChunks db' d) = set (concat (map (pageRows now d) pps)) \<and>
      length (getRagChunks db' d) = sum_list (map (\<lambda>p. length (chunks p)) pps) \<and>
      (\<forall>p\<in>set pps. filter (\<lambda>r. rc_url r = pp_url p) (getRagChunks db' d) = pageRows now d p)"
proof -
  let ?k = "\<lambda>r. (rc_url r, chunkId r)"
  let ?new = "concat (map (pageRows now d) pps)"
  let ?rows0 = "deleteStmt d (rag_chunks db)"
  let ?n = "sum_list (map (\<lambda>p. length (chunks p)) pps)"
  define db' where "db' = db\<lparr>rag_chunks := ?rows0 @ ?new,
      rag_meta := (rag_meta db)(d \<mapsto> \<lparr>siteName = site, pageCount = length pps, chunkCount = ?n, indexedAt = now\<rparr>)\<rparr>"
  have "\<forall>r\<in>set ?rows0. domain r = d \<longrightarrow> rc_url r \<notin> pp_url ` set pps"
    by (simp add: deleteStmt_def)
  from insertPages_ok[OF assms this, of now 0 0]
  have res: "replaceRagChunks now db d site pps = Inr (db', length pps, ?n)"
    by (simp add: replaceRagChunks_def db'_def)
  have f0: "filter (\<lambda>r. domain r = d) ?rows0 = []"
    by (auto simp: deleteStmt_def filter_empty_conv)
  have f1: "filter (\<lambda>r. domain r = d) ?new = ?new"
    by (auto simp: filter_id_conv dest: pageRows_domain)
  have get: "getRagChunks db' d = sort_key ?k ?new"
    by (simp add: getRagChunks_def db'_def f0 f1)
  have len: "length ?new = ?n"
    by (simp add: length_concat comp_def pageRows_def)
  have per: "\<forall>p\<in>set pps. filter (\<lambda>r. rc_url r = pp_url p) (getRagChunks db' d) = pageRows now d p"
  proof
    fix p assume "p \<in> set pps"
    then have "filter (\<lambda>r. rc_url r = pp_url p) (sort_key ?k ?new) = sort_key ?k (pageRows now d p)"
      using assms by (simp add: filter_sort filter_url_pageRows)
    also have "\<dots> = pageRows now d p"
      by (rule sort_key_id_if_sorted) (rule pageRows_sorted)
    finally show "filter (\<lambda>r. rc_url r = pp_url p) (getRagChunks db' d) = pageRows now d p"
      by (simp add: get)
  qed
  have "sorted (map ?k (getRagChunks db' d))" by (simp add: get)
  moreover have "set (getRagChunks db' d) = set ?new" by (simp add: get)
  moreover have "length (getRagChunks db' d) = ?n" by (simp add: get len)
  ultimately show ?thesis using res get per by blast
qed

theorem replaceRagChunks_getRagChunks_witness:
  "distinct (map pp_url [\<lparr>pp_url = ''b'', pp_title = '''', chunks = [''x'', ''y'']\<rparr>,
                         \<lparr>pp_url = ''a'', pp_title = ''T'', chunks = [''z'']\<rparr>]) \<and>
   (\<exists>db'. replaceRagChunks ''t1''
       \<lparr>site_facts = Map.empty,
        rag_chunks = [\<lparr>domain = ''d'', rc_url = ''old'', rc_title = ''Old'', chunkId = 0,
                        rc_content = ''stale'', updatedAt = ''t0''\<rparr>],
        rag_meta = Map.empty\<rparr> ''d'' None
       [\<lparr>pp_url = ''b'', pp_title = '''', chunks = [''x'', ''y'']\<rparr>,
        \<lparr>pp_url = ''a'', pp_title = ''T'', chunks = [''z'']\<rparr>] = Inr (db', 2, 3) \<and>
     getRagChunks db' ''d'' =
       [\<lparr>domain = ''d'', rc_url = ''a'', rc_title = ''T'', chunkId = 0, rc_content = ''z'', updatedAt = ''t1''\<rparr>,
        \<lparr>domain = ''d'', rc_url = ''b'', rc_title = ''Untitled'', chunkId = 0, rc_content = ''x'', updatedAt = ''t1''\<rparr>,
        \<lparr>domain = ''d'', rc_url = ''b'', rc_title = ''Untitled'', chunkId = 1, rc_content = ''y'', updatedAt = ''t1''\<rparr>])"
proof -
  let ?pps = "[\<lparr>pp_url = ''b'', pp_title = '''', chunks = [''x'', ''y'']\<rparr>,
               \<lparr>pp_url = ''a'', pp_title = ''T'', chunks = [''z'']\<rparr>]"
  let ?db = "\<lparr>site_facts = Map.empty,
        rag_chunks = [\<lparr>domain = ''d'', rc_url = ''old'', rc_title = ''Old'', chunkId = 0,
                        rc_content = ''stale'', updatedAt = ''t0''\<rparr>],
        rag_meta = Map.empty\<rparr>"
  have h: "distinct (map pp_url ?pps)" by simp
  from replaceRagChunks_getRagChunks[OF h, of "''t1''" ?db "''d''" None]
  obtain db' where r: "replaceRagChunks ''t1'' ?db ''d'' None ?pps =
           Inr (db', length ?pps, sum_list (map (\<lambda>p. length (chunks p)) ?pps))"
    and g: "getRagChunks db' ''d'' =
        sort_key (\<lambda>r. (rc_url r, chunkId r)) (concat (map (pageRows ''t1'' ''d'') ?pps))"
    by blast
  have s: "sort_key (\<lambda>r. (rc_url r, chunkId r)) (concat (map (pageRows ''t1'' ''d'') ?pps)) =
       [\<lparr>domain = ''d'', rc_url = ''a'', rc_title = ''T'', chunkId = 0, rc_content = ''z'', updatedAt = ''t1''\<rparr>,
        \<lparr>domain = ''d'', rc_url = ''b'', rc_title = ''Untitled'', chunkId = 0, rc_content = ''x'', updatedAt = ''t1''\<rparr>,
        \<lparr>domain = ''d'', rc_url = ''b'', rc_title = ''Untitled'', chunkId = 1, rc_content = ''y'', updatedAt = ''t1''\<rparr>]"
    by code_simp
  from r g s h show ?thesis by auto
qed

section \<open>Properties of the retriever\<close>



lemma filter_enumerate_all:
  assumes "\<And>i. i < length xs \<Longrightarrow> P (i, xs ! i)"
  shows "filter P (enumerate 0 xs) = enumerate 0 xs"
proof -
  have "\<forall>p\<in>set (enumerate 0 xs). P p"
  proof
    fix p assume "p \<in> set (enumerate 0 xs)"
    then have "fst p < length xs" "xs ! fst p = snd p" by (simp_all add: in_set_enumerate_eq)
    with assms[of "fst p"] show "P p" by simp
  qed
  then show ?thesis by (simp add: filter_id_conv)
qed

lemma filter_enumerate_prefix:
  assumes "\<And>i j. i < j \<Longrightarrow> j < length xs \<Longrightarrow> P (j, xs ! j) \<Longrightarrow> P (i, xs ! i)"
  shows "filter P (enumerate 0 xs) = take (length (filter P (enumerate 0 xs))) (enumerate 0 xs)"
  using assms
proof (induction xs rule: rev_induct)
  case Nil show ?case by simp
next
  case (snoc x xs)
  have en: "enumerate 0 (xs @ [x]) = enumerate 0 xs @ [(length xs, x)]"
    by (simp add: enumerate_append_eq)
  have closed: "\<And>i j. i < j \<Longrightarrow> j < length xs \<Longrightarrow> P (j, xs ! j) \<Longrightarrow> P (i, xs ! i)"
  proof -
    fix i j assume a: "i < j" "j < length xs" "P (j, xs ! j)"
    then have "P (j, (xs @ [x]) ! j)" by (simp add: nth_append)
    with snoc.prems[of i j] a have "P (i, (xs @ [x]) ! i)" by simp
    then show "P (i, xs ! i)" using a by (simp add: nth_append)
  qed
  note IH = snoc.IH[OF closed]
  show ?case
  proof (cases "P (length xs, x)")
    case True
    have "\<And>i. i < length xs \<Longrightarrow> P (i, xs ! i)"
    proof -
      fix i assume i: "i < length xs"
      from snoc.prems[of i "length xs"] i True have "P (i, (xs @ [x]) ! i)" by simp
      then show "P (i, xs ! i)" using i by (simp add: nth_append)
    qed
    then have "filter P (enumerate 0 xs) = enumerate 0 xs" by (rule filter_enumerate_all)
    then show ?thesis using True by (simp add: en)
  next
    case False
    have le: "length (filter P (enumerate 0 xs)) \<le> length (enumerate 0 xs)"
      by (rule length_filter_le)
    have "filter P (enumerate 0 (xs @ [x])) = filter P (enumerate 0 xs)"
      using False by (simp add: en)
    moreover have "take (length (filter P (enumerate 0 xs))) (enumerate 0 xs @ [(length xs, x)])
        = take (length (filter P (enumerate 0 xs))) (enumerate 0 xs)"
      using le by simp
    ultimately show ?thesis using IH by (simp add: en)
  qed
qed

lemma sortByScore_desc:
  assumes "i \<le> j" "j < length (sortByScore xs)"
  shows "score (sortByScore xs ! j) \<le> score (sortByScore xs ! i)"
proof -
  have "sorted (map (\<lambda>s. - score s) (sortByScore xs))"
    unfolding sortByScore_def by (rule sorted_sort_key)
  from sorted_nth_mono[OF this, of i j] assms show ?thesis by simp
qed

lemma selectChunks_take:
  "selectChunks topK (sortByScore xs) =
     take (length (selectChunks topK (sortByScore xs))) (sortByScore xs) \<and>
   filter (\<lambda>(i, s). int i < topK \<and> (score s > 0 \<or> i < 2)) (enumerate 0 (sortByScore xs)) =
     take (length (selectChunks topK (sortByScore xs))) (enumerate 0 (sortByScore xs))"
proof -
  let ?P = "\<lambda>(i, s). int i < topK \<and> (score s > 0 \<or> i < (2::nat))"
  let ?ys = "sortByScore xs"
  have "\<And>i j. i < j \<Longrightarrow> j < length ?ys \<Longrightarrow> ?P (j, ?ys ! j) \<Longrightarrow> ?P (i, ?ys ! i)"
  proof -
    fix i j assume a: "i < j" "j < length ?ys" "?P (j, ?ys ! j)"
    from sortByScore_desc[of i j xs] a have "score (?ys ! j) \<le> score (?ys ! i)" by simp
    with a show "?P (i, ?ys ! i)" by auto
  qed
  from filter_enumerate_prefix[of ?ys ?P, OF this]
  have f: "filter ?P (enumerate 0 ?ys) = take (length (filter ?P (enumerate 0 ?ys))) (enumerate 0 ?ys)"
    by simp
  have l: "length (selectChunks topK ?ys) = length (filter ?P (enumerate 0 ?ys))"
    by (simp add: selectChunks_def)
  have "selectChunks topK ?ys = map snd (take (length (filter ?P (enumerate 0 ?ys))) (enumerate 0 ?ys))"
    unfolding selectChunks_def using f by simp
  also have "\<dots> = take (length (filter ?P (enumerate 0 ?ys))) ?ys"
    by (simp add: take_map[symmetric])
  finally show ?thesis using f l by simp
qed

text \<open>
  Claim C6, as amended. The scored chunks are in descending order of score, and the chunks
  selected for the context are a prefix of that order, of at most \<open>topK\<close> chunks. The first
  \<open>min 2 topK\<close> chunks of the order are always selected, whatever their score (the two
  highest-ranked chunks whenever \<open>topK \<ge> 2\<close>, as with the default 8), and every selected
  chunk after the first two has a score above 0.
\<close>

theorem selectChunks_prefix:
  fixes db :: Db and d userQuery :: string and topK :: int
  defines "scored \<equiv> sortByScore (scoreRows (tokenize userQuery) (getRagChunks db d))"
  defines "selected \<equiv> selectChunks topK scored"
  shows "(\<forall>i j. i \<le> j \<and> j < length scored \<longrightarrow> score (scored ! j) \<le> score (scored ! i)) \<and>
     selected = take (length selected) scored \<and>
     int (length selected) \<le> max 0 topK \<and>
     take (min 2 (nat topK)) selected = take (min 2 (nat topK)) scored \<and>
     (\<forall>i. 2 \<le> i \<and> i < length selected \<longrightarrow> 0 < score (selected ! i))"
proof -
  let ?P = "\<lambda>(i, s). int i < topK \<and> (score s > 0 \<or> i < (2::nat))"
  define m where "m = length selected"
  have sel: "selected = take m scored"
    and flt: "filter ?P (enumerate 0 scored) = take m (enumerate 0 scored)"
    using selectChunks_take[of topK "scoreRows (tokenize userQuery) (getRagChunks db d)"]
    by (simp_all add: selected_def scored_def m_def)
  have "length (selectChunks topK scored) \<le> length (enumerate 0 scored)"
    unfolding selectChunks_def length_map by (rule length_filter_le)
  then have mle: "m \<le> length scored" by (simp add: m_def selected_def)
  have inF: "\<And>i. i < m \<Longrightarrow> ?P (i, scored ! i)"
  proof -
    fix i assume i: "i < m"
    then have "take m (enumerate 0 scored) ! i = (i, scored ! i)"
      using mle by (simp add: nth_enumerate_eq)
    moreover have "take m (enumerate 0 scored) ! i \<in> set (take m (enumerate 0 scored))"
      using i mle by (intro nth_mem) simp
    ultimately have "(i, scored ! i) \<in> set (filter ?P (enumerate 0 scored))"
      by (simp add: flt)
    then show "?P (i, scored ! i)" by simp
  qed
  have notF: "\<And>i. m \<le> i \<Longrightarrow> i < length scored \<Longrightarrow> \<not> ?P (i, scored ! i)"
  proof
    fix i assume i: "m \<le> i" "i < length scored" and p: "?P (i, scored ! i)"
    have "(i, scored ! i) \<in> set (enumerate 0 scored)"
      using i by (simp add: in_set_enumerate_eq)
    with p have "(i, scored ! i) \<in> set (take m (enumerate 0 scored))"
      by (simp add: flt[symmetric])
    then have "(i, scored ! i) \<in> set (zip [0..<m] (take m scored))"
      using mle by (simp add: enumerate_eq_zip take_zip min_def)
    then have "i \<in> set [0..<m]" by (rule set_zip_leftD)
    with i show False by simp
  qed
  have 1: "\<forall>i j. i \<le> j \<and> j < length scored \<longrightarrow> score (scored ! j) \<le> score (scored ! i)"
    unfolding scored_def using sortByScore_desc by blast
  have 3: "int (length selected) \<le> max 0 topK"
  proof (cases m)
    case 0 then show ?thesis by (simp add: m_def)
  next
    case (Suc k)
    with inF[of k] have "int k < topK" by simp
    then show ?thesis using Suc by (simp add: m_def)
  qed
  have 4: "take (min 2 (nat topK)) selected = take (min 2 (nat topK)) scored"
  proof (cases "m < length scored")
    case False
    then show ?thesis using sel mle by simp
  next
    case True
    have "min 2 (nat topK) \<le> m"
    proof (rule ccontr)
      assume "\<not> min 2 (nat topK) \<le> m"
      then have "m < 2" "int m < topK" by auto
      then have "?P (m, scored ! m)" by simp
      with notF[of m] True show False by simp
    qed
    then show ?thesis by (simp add: sel min_def)
  qed
  have 5: "\<forall>i. 2 \<le> i \<and> i < length selected \<longrightarrow> 0 < score (selected ! i)"
  proof (intro allI impI)
    fix i assume i: "2 \<le> i \<and> i < length selected"
    then have "i < m" by (simp add: m_def)
    from inF[OF this] i have "0 < score (scored ! i)" by auto
    moreover have "selected ! i = scored ! i" using \<open>i < m\<close> by (subst sel) simp
    ultimately show "0 < score (selected ! i)" by simp
  qed
  from 1 sel[unfolded m_def] 3 4 5 show ?thesis by blast
qed

theorem selectChunks_prefix_witness:
  "(2::nat) \<le> 2 \<and>
   2 < length (selectChunks 8 (sortByScore (scoreRows (tokenize ''drain cleaning'')
         (getRagChunks demoDb demoDomain)))) \<and>
   0 < score (selectChunks 8 (sortByScore (scoreRows (tokenize ''drain cleaning'')
         (getRagChunks demoDb demoDomain))) ! 2) \<and>
   take 2 (selectChunks 8 (sortByScore (scoreRows (tokenize ''drain cleaning'')
         (getRagChunks demoDb demoDomain)))) =
   take 2 (sortByScore (scoreRows (tokenize ''drain cleaning'') (getRagChunks demoDb demoDomain)))"
proof -
  let ?S = "sortByScore (scoreRows (tokenize ''drain cleaning'') (getRagChunks demoDb demoDomain))"
  have h: "2 < length (selectChunks 8 ?S)" by code_simp
  from selectChunks_prefix[where topK = 8 and userQuery = "''drain cleaning''" and db = demoDb and d = demoDomain] h
  show ?thesis by simp
qed

text \<open>
  With \<open>topK = 1\<close>, which is what \<open>isLikelyOnTopic\<close> passes, only the highest-ranked chunk is
  selected although the index holds a second one.
\<close>

theorem selectChunks_topK1_counterexample:
  "map sc_content (take 2 (sortByScore (scoreRows (tokenize ''drain cleaning'')
        (getRagChunks demoDb demoDomain)))) =
     [''We clear any blocked drain fast.'', ''Call for a drain inspection today.''] \<and>
   map sc_content (selectChunks 1 (sortByScore (scoreRows (tokenize ''drain cleaning'')
        (getRagChunks demoDb demoDomain)))) =
     [''We clear any blocked drain fast.'']"
  by code_simp

text \<open>
  Claim C2 on the example index. With \<open>maxChars = 184\<close> the two best blocks, of 91 and 93
  characters, both fit the budget the loop counts, and the context that joins them with a
  blank line is 186 characters long.
\<close>

theorem retrieveRagContext_over_budget:
  "length (contextStr (retrieveRagContext 8 12000 demoDb demoDomain ''drain cleaning''
      None (Some 184))) = 186"
  by code_simp

lemma take_eq_iff_prefix: "take (length t) s = t \<longleftrightarrow> (\<exists>ss. s = t @ ss)"
proof
  assume "take (length t) s = t"
  then have "s = t @ drop (length t) s" by (metis append_take_drop_id)
  then show "\<exists>ss. s = t @ ss" ..
next
  assume "\<exists>ss. s = t @ ss"
  then show "take (length t) s = t" by auto
qed

lemma includesStr_iff: "includesStr s t \<longleftrightarrow> (\<exists>ps ss. s = ps @ t @ ss)"
proof (induction s)
  case Nil show ?case by auto
next
  case (Cons c cs)
  show ?case
  proof
    assume "includesStr (c # cs) t"
    then consider "take (length t) (c # cs) = t" | "includesStr cs t" by auto
    then show "\<exists>ps ss. c # cs = ps @ t @ ss"
    proof cases
      case 1
      then obtain ss where "c # cs = t @ ss" using take_eq_iff_prefix[of t "c # cs"] by blast
      then have "c # cs = [] @ t @ ss" by simp
      then show ?thesis by blast
    next
      case 2
      with Cons.IH obtain ps ss where "cs = ps @ t @ ss" by blast
      then have "c # cs = (c # ps) @ t @ ss" by simp
      then show ?thesis by blast
    qed
  next
    assume "\<exists>ps ss. c # cs = ps @ t @ ss"
    then obtain ps ss where e: "c # cs = ps @ t @ ss" by blast
    show "includesStr (c # cs) t"
    proof (cases ps)
      case Nil
      with e have "take (length t) (c # cs) = t" using take_eq_iff_prefix[of t "c # cs"] by auto
      then show ?thesis by simp
    next
      case (Cons p ps')
      with e have "cs = ps' @ t @ ss" by simp
      with Cons.IH have "includesStr cs t" by blast
      then show ?thesis by simp
    qed
  qed
qed

lemma includesStr_map:
  "includesStr s t \<Longrightarrow> includesStr (map f s) (map f t)"
  unfolding includesStr_iff by (metis map_append)

lemma includesStr_sep:
  assumes "sp \<notin> set t" "includesStr (a @ sp # b) t"
  shows "includesStr a t \<or> includesStr b t"
  using assms(2)
proof (induction a)
  case Nil
  show ?case
  proof (cases t)
    case Nil then show ?thesis by (simp add: includesStr_iff)
  next
    case (Cons x xs)
    with assms(1) have "take (length t) (sp # b) \<noteq> t" by auto
    with Nil show ?thesis by simp
  qed
next
  case (Cons x a)
  from Cons.prems consider "take (length t) ((x # a) @ sp # b) = t" | "includesStr (a @ sp # b) t"
    by auto
  then show ?case
  proof cases
    case 1
    show ?thesis
    proof (cases "length t \<le> length (x # a)")
      case True
      have "take (length t) ((x # a) @ (sp # b))
          = take (length t) (x # a) @ take (length t - length (x # a)) (sp # b)"
        by (rule take_append)
      moreover have "length t - length (x # a) = 0" using True by simp
      ultimately have "take (length t) ((x # a) @ (sp # b)) = take (length t) (x # a)"
        by (simp only: take_0 append_Nil2)
      with 1 have "take (length t) (x # a) = t" by simp
      then have "includesStr (x # a) t" by simp
      then show ?thesis ..
    next
      case False
      then have n: "length (x # a) < length t" by simp
      have "take (length t) ((x # a) @ sp # b) ! length (x # a) = ((x # a) @ sp # b) ! length (x # a)"
        using n by (rule nth_take)
      also have "\<dots> = sp" by (rule nth_append_length)
      finally have "t ! length (x # a) = sp" using 1 by simp
      then have "sp \<in> set t" using n nth_mem by metis
      with assms(1) show ?thesis by simp
    qed
  next
    case 2
    with Cons.IH have "includesStr a t \<or> includesStr b t" by blast
    then show ?thesis by auto
  qed
qed

lemma includesStr_appendI1: "includesStr a t \<Longrightarrow> includesStr (a @ b) t"
  unfolding includesStr_iff by (metis append_assoc)

lemma splitOn_nonempty: "splitOn sep cur s \<noteq> []"
  by (induction sep cur s rule: splitOn.induct) auto

lemma splitOn_absent:
  "\<not> includesStr s sep \<Longrightarrow> splitOn sep cur s = [cur @ s]"
  by (induction sep cur s rule: splitOn.induct) auto

lemma splitOn_present:
  "sep \<noteq> [] \<Longrightarrow> includesStr s sep \<Longrightarrow> 2 \<le> length (splitOn sep cur s)"
proof (induction sep cur s rule: splitOn.induct)
  case (1 sep cur) then show ?case by simp
next
  case (2 sep cur c cs)
  show ?case
  proof (cases "take (length sep) (c # cs) = sep")
    case True
    have "splitOn sep [] (drop (length sep) (c # cs)) \<noteq> []" by (rule splitOn_nonempty)
    then have "1 \<le> length (splitOn sep [] (drop (length sep) (c # cs)))"
      by (simp add: Suc_le_eq)
    with True 2(3) show ?thesis by simp
  next
    case False
    with 2(4) have "includesStr cs sep" by simp
    with 2(2)[OF _ 2(3)] False show ?thesis by simp
  qed
qed

lemma splitWs_chars:
  "w \<in> set (splitWs cur s) \<Longrightarrow> c \<in> set w \<Longrightarrow> c \<in> set cur \<or> (c \<in> set s \<and> \<not> is_space c)"
proof (induction cur s rule: splitWs.induct)
  case (1 cur) then show ?case by simp
next
  case (2 cur x xs)
  show ?case
  proof (cases "is_space x")
    case True
    with 2(3) consider "w = cur" | "w \<in> set (splitWs [] (dropWhile is_space xs))" by auto
    then show ?thesis
    proof cases
      case 1 with 2(4) show ?thesis by simp
    next
      case b: 2
      from 2(1)[OF True b 2(4)] have "c \<in> set (dropWhile is_space xs) \<and> \<not> is_space c" by simp
      then show ?thesis by (auto dest: set_dropWhileD)
    qed
  next
    case False
    with 2(3) have "w \<in> set (splitWs (cur @ [x]) xs)" by simp
    from 2(2)[OF False this 2(4)] False show ?thesis by auto
  qed
qed

lemma stripPunct_chars: "c \<in> set (stripPunct s) \<Longrightarrow> isAlnum c \<or> is_space c"
  by (auto simp: stripPunct_def is_space_def split: if_splits)

lemma tokenize_token:
  assumes "w \<in> set (tokenize text)"
  shows "2 < length w" and "\<forall>c\<in>set w. isAlnum c"
proof -
  from assms show "2 < length w" by (simp add: tokenize_def)
  from assms have w: "w \<in> set (splitWs [] (stripPunct (stripUrls (toLowerCase text))))"
    by (simp add: tokenize_def)
  show "\<forall>c\<in>set w. isAlnum c"
  proof
    fix c assume "c \<in> set w"
    from splitWs_chars[OF w this]
    have "c \<in> set (stripPunct (stripUrls (toLowerCase text)))" "\<not> is_space c" by simp_all
    with stripPunct_chars show "isAlnum c" by blast
  qed
qed

lemma isAlnum_lower: "isAlnum c \<Longrightarrow> lowerChar c = c"
  by (auto simp: isAlnum_def lowerChar_def Let_def less_eq_char_def)

lemma isAlnum_not_blank: "isAlnum c \<Longrightarrow> c \<noteq> CHR '' ''"
  by (auto simp: isAlnum_def less_eq_char_def)

lemma token_lower: "w \<in> set (tokenize text) \<Longrightarrow> toLowerCase w = w"
  using tokenize_token(2)[of w "text"] by (simp add: toLowerCase_def map_idI isAlnum_lower)

lemma token_no_blank: "w \<in> set (tokenize text) \<Longrightarrow> CHR '' '' \<notin> set w"
  using tokenize_token(2)[of w "text"] isAlnum_not_blank by blast

lemma lowerChar_blank: "lowerChar (CHR '' '') = CHR '' ''"
  by (simp add: lowerChar_def)

lemma hay_includes:
  assumes "CHR '' '' \<notin> set w"
  shows "includesStr (toLowerCase (t @ '' '' @ u @ '' '' @ c)) w \<longleftrightarrow>
     includesStr (toLowerCase t) w \<or> includesStr (toLowerCase u) w \<or> includesStr (toLowerCase c) w"
proof
  assume "includesStr (toLowerCase (t @ '' '' @ u @ '' '' @ c)) w"
  then have "includesStr (toLowerCase t @ CHR '' '' # (toLowerCase u @ CHR '' '' # toLowerCase c)) w"
    by (simp add: toLowerCase_def lowerChar_blank)
  from includesStr_sep[OF assms this]
  show "includesStr (toLowerCase t) w \<or> includesStr (toLowerCase u) w \<or> includesStr (toLowerCase c) w"
    using includesStr_sep[OF assms] by blast
next
  assume a: "includesStr (toLowerCase t) w \<or> includesStr (toLowerCase u) w \<or> includesStr (toLowerCase c) w"
  have e: "toLowerCase (t @ '' '' @ u @ '' '' @ c) =
      toLowerCase t @ '' '' @ toLowerCase u @ '' '' @ toLowerCase c"
    by (simp add: toLowerCase_def lowerChar_blank)
  from a show "includesStr (toLowerCase (t @ '' '' @ u @ '' '' @ c)) w"
    unfolding e includesStr_iff
    by (metis append_assoc append_Nil append_Nil2)
qed

lemma occurrences_pos_iff:
  assumes "w \<noteq> []"
  shows "0 < int (length (split hay w)) - 1 \<longleftrightarrow> includesStr hay w"
proof (cases "includesStr hay w")
  case True
  from splitOn_present[OF assms True, of "[]"] True assms show ?thesis by (simp add: split_def)
next
  case False
  from splitOn_absent[OF False, of "[]"] False assms show ?thesis by (simp add: split_def)
qed

lemma score_step_ge:
  fixes sc occ :: int
  shows "sc \<le> (let occurrences = occ;
             score1 = (if occurrences > 0 then sc + occurrences else sc);
             score2 = (if a then score1 + 4 else score1)
         in (if b then score2 + 3 else score2))"
  by (auto simp: Let_def)

lemma score_step_title:
  fixes sc occ :: int
  assumes "0 < occ"
  shows "sc + 5 \<le> (let occurrences = occ;
             score1 = (if occurrences > 0 then sc + occurrences else sc);
             score2 = (if True then score1 + 4 else score1)
         in (if b then score2 + 3 else score2))"
  using assms by (auto simp: Let_def)

lemma score_step_none:
  fixes sc occ :: int
  assumes "\<not> 0 < occ"
  shows "(let occurrences = occ;
             score1 = (if occurrences > 0 then sc + occurrences else sc);
             score2 = (if False then score1 + 4 else score1)
         in (if False then score2 + 3 else score2)) = sc"
  using assms by (auto simp: Let_def)

lemma scoreTerms_Cons:
  "w \<noteq> [] \<Longrightarrow> scoreTerms hay t u (w # ws) sc =
     scoreTerms hay t u ws
       (let occurrences = int (length (split hay w)) - 1;
             score1 = (if occurrences > 0 then sc + occurrences else sc);
             score2 = (if includesStr (toLowerCase t) w then score1 + 4 else score1)
         in (if includesStr (toLowerCase u) w then score2 + 3 else score2))"
  by (simp only: scoreTerms.simps Let_def if_False)

lemma scoreTerms_ge: "sc \<le> scoreTerms hay t u ws sc"
proof (induction ws arbitrary: sc)
  case Nil show ?case by simp
next
  case (Cons w ws)
  show ?case
  proof (cases "w = []")
    case True with Cons show ?thesis by simp
  next
    case False
    show ?thesis
      unfolding scoreTerms_Cons[OF False]
      by (rule order_trans[OF score_step_ge Cons.IH])
  qed
qed

lemma scoreTerms_none:
  assumes "\<forall>w\<in>set ws. \<not> includesStr hay w \<and> \<not> includesStr (toLowerCase t) w \<and> \<not> includesStr (toLowerCase u) w"
  shows "scoreTerms hay t u ws sc = sc"
  using assms
proof (induction ws arbitrary: sc)
  case Nil show ?case by simp
next
  case (Cons w ws)
  show ?case
  proof (cases "w = []")
    case True with Cons show ?thesis by simp
  next
    case False
    from Cons.prems have n: "\<not> includesStr hay w" "\<not> includesStr (toLowerCase t) w"
      "\<not> includesStr (toLowerCase u) w" by simp_all
    then have "\<not> 0 < int (length (split hay w)) - 1"
      using occurrences_pos_iff[OF False, of hay] by blast
    from score_step_none[OF this, of sc] Cons show ?thesis
      unfolding scoreTerms_Cons[OF False] by (simp only: n if_False list.set_intros ball_simps) auto
  qed
qed

lemma scoreTerms_title:
  assumes "w \<in> set ws" "w \<noteq> []" "includesStr hay w" "includesStr (toLowerCase t) w"
  shows "sc + 5 \<le> scoreTerms hay t u ws sc"
  using assms(1)
proof (induction ws arbitrary: sc)
  case Nil then show ?case by simp
next
  case (Cons x xs)
  show ?case
  proof (cases "x = w")
    case True
    have "0 < int (length (split hay w)) - 1"
      using occurrences_pos_iff[OF assms(2), of hay] assms(3) by blast
    from score_step_title[OF this, of sc "includesStr (toLowerCase u) w"]
    show ?thesis
      unfolding True scoreTerms_Cons[OF assms(2)] using assms(4)
      by (simp only: if_True) (rule order_trans[OF _ scoreTerms_ge])
  next
    case False
    with Cons.prems have in_xs: "w \<in> set xs" by simp
    show ?thesis
    proof (cases "x = []")
      case True
      with Cons.IH[OF in_xs] show ?thesis by simp
    next
      case nonempty: False
      let ?s3 = "(let occurrences = int (length (split hay x)) - 1;
             score1 = (if occurrences > 0 then sc + occurrences else sc);
             score2 = (if includesStr (toLowerCase t) x then score1 + 4 else score1)
         in (if includesStr (toLowerCase u) x then score2 + 3 else score2))"
      have "sc \<le> ?s3" by (rule score_step_ge)
      then have "sc + 5 \<le> ?s3 + 5" by (simp only: add_le_cancel_right)
      also have "?s3 + 5 \<le> scoreTerms hay t u xs ?s3" by (rule Cons.IH[OF in_xs])
      finally show ?thesis unfolding scoreTerms_Cons[OF nonempty] .
    qed
  qed
qed

lemma hay_includes_norm:
  assumes "CHR '' '' \<notin> set w"
  shows "includesStr (toLowerCase (t @ CHR '' '' # u @ CHR '' '' # c)) w \<longleftrightarrow>
     includesStr (toLowerCase t) w \<or> includesStr (toLowerCase u) w \<or> includesStr (toLowerCase c) w"
  using hay_includes[OF assms, of t u c] by simp

lemma scoreChunk_none:
  assumes "\<forall>w\<in>set (tokenize q). \<not> includesStr (toLowerCase t) w \<and>
     \<not> includesStr (toLowerCase u) w \<and> \<not> includesStr (toLowerCase c) w"
  shows "scoreChunk c t u (tokenize q) = 0"
proof -
  have "\<forall>w\<in>set (tokenize q). \<not> includesStr (toLowerCase (t @ '' '' @ u @ '' '' @ c)) w
      \<and> \<not> includesStr (toLowerCase t) w \<and> \<not> includesStr (toLowerCase u) w"
    using assms by (simp add: hay_includes_norm token_no_blank)
  then show ?thesis unfolding scoreChunk_def by (rule scoreTerms_none)
qed

lemma scoreChunk_title:
  assumes "w \<in> set (tokenize q)" "includesStr (toLowerCase t) w"
  shows "5 \<le> scoreChunk c t u (tokenize q)"
proof -
  have ne: "w \<noteq> []" using tokenize_token(1)[OF assms(1)] by auto
  have "includesStr (toLowerCase (t @ '' '' @ u @ '' '' @ c)) w"
    using assms by (simp add: hay_includes_norm token_no_blank)
  from scoreTerms_title[OF assms(1) ne this assms(2), of 0 u]
  show ?thesis by (simp add: scoreChunk_def)
qed

lemma best_ge:
  assumes "x \<in> set xs"
  shows "score x \<le> (case sortByScore xs of [] \<Rightarrow> 0 | s # _ \<Rightarrow> score s)"
proof -
  have "x \<in> set (sortByScore xs)" using assms by (simp add: sortByScore_def)
  then obtain j where j: "j < length (sortByScore xs)" "sortByScore xs ! j = x"
    by (auto simp: in_set_conv_nth)
  from sortByScore_desc[of 0 j xs] j have "score x \<le> score (sortByScore xs ! 0)" by simp
  moreover from j obtain s ss where "sortByScore xs = s # ss" by (cases "sortByScore xs") auto
  ultimately show ?thesis by simp
qed

lemma best_zero:
  assumes "\<forall>x\<in>set xs. score x = 0"
  shows "(case sortByScore xs of [] \<Rightarrow> 0 | s # _ \<Rightarrow> score s) = 0"
proof (cases "sortByScore xs")
  case Nil then show ?thesis by simp
next
  case (Cons s ss)
  then have "s \<in> set (sortByScore xs)" by simp
  then have "s \<in> set xs" by (simp add: sortByScore_def)
  with assms Cons show ?thesis by simp
qed

lemma bestScore_retrieve:
  "bestScore (retrieveRagContext K M db d q ok om) =
     (case sortByScore (scoreRows (tokenize q) (getRagChunks db d)) of [] \<Rightarrow> 0 | s # _ \<Rightarrow> score s)"
  by (simp add: retrieveRagContext_def Let_def scoreRows_def sortByScore_def)

lemma set_getRagChunks: "set (getRagChunks db d) = {r \<in> set (rag_chunks db). domain r = d}"
  by (auto simp: getRagChunks_def)

text \<open>
  Claim C8. With the default minimum topic score 2: if no token of the message (lowercased,
  longer than 2 characters) occurs in the lowercased title, url or content of any chunk stored
  for the domain, the best score is 0 and \<open>isLikelyOnTopic\<close> is false; if some token of the
  message occurs verbatim in the title of a chunk stored for the domain, that chunk scores at
  least 1 + 4, the best score is at least 5, and \<open>isLikelyOnTopic\<close> is true.
\<close>

theorem isLikelyOnTopic_lexical:
  "((\<forall>w\<in>set (tokenize message). \<forall>row\<in>set (rag_chunks db). domain row = d \<longrightarrow>
        \<not> includesStr (toLowerCase (rc_title row)) w \<and>
        \<not> includesStr (toLowerCase (rc_url row)) w \<and>
        \<not> includesStr (toLowerCase (rc_content row)) w)
      \<longrightarrow> \<not> isLikelyOnTopic TOP_K MAX_CONTEXT_CHARS 2 db d message) \<and>
   ((\<exists>w\<in>set (tokenize message). \<exists>row\<in>set (rag_chunks db).
        domain row = d \<and> includesStr (rc_title row) w)
      \<longrightarrow> isLikelyOnTopic TOP_K MAX_CONTEXT_CHARS 2 db d message)"
proof (intro conjI impI)
  let ?scored = "scoreRows (tokenize message) (getRagChunks db d)"
  assume a: "\<forall>w\<in>set (tokenize message). \<forall>row\<in>set (rag_chunks db). domain row = d \<longrightarrow>
        \<not> includesStr (toLowerCase (rc_title row)) w \<and>
        \<not> includesStr (toLowerCase (rc_url row)) w \<and>
        \<not> includesStr (toLowerCase (rc_content row)) w"
  have "\<forall>x\<in>set ?scored. score x = 0"
  proof
    fix x assume "x \<in> set ?scored"
    then obtain row where row: "row \<in> set (getRagChunks db d)"
      and x: "score x = scoreChunk (rc_content row) (rc_title row) (rc_url row) (tokenize message)"
      by (auto simp: scoreRows_def)
    from row have "row \<in> set (rag_chunks db)" "domain row = d" by (simp_all add: set_getRagChunks)
    with a have "\<forall>w\<in>set (tokenize message).
        \<not> includesStr (toLowerCase (rc_title row)) w \<and>
        \<not> includesStr (toLowerCase (rc_url row)) w \<and>
        \<not> includesStr (toLowerCase (rc_content row)) w" by blast
    then show "score x = 0" unfolding x by (rule scoreChunk_none)
  qed
  then have "bestScore (retrieveRagContext TOP_K MAX_CONTEXT_CHARS db d message (Some 1) (Some 1200)) = 0"
    unfolding bestScore_retrieve by (rule best_zero)
  then show "\<not> isLikelyOnTopic TOP_K MAX_CONTEXT_CHARS 2 db d message"
    by (simp add: isLikelyOnTopic_def)
next
  let ?scored = "scoreRows (tokenize message) (getRagChunks db d)"
  assume "\<exists>w\<in>set (tokenize message). \<exists>row\<in>set (rag_chunks db).
        domain row = d \<and> includesStr (rc_title row) w"
  then obtain w row where w: "w \<in> set (tokenize message)"
    and row: "row \<in> set (rag_chunks db)" "domain row = d"
    and inc: "includesStr (rc_title row) w"
    by blast
  from includesStr_map[OF inc, of lowerChar]
  have "includesStr (toLowerCase (rc_title row)) (toLowerCase w)" by (simp add: toLowerCase_def)
  then have "includesStr (toLowerCase (rc_title row)) w" using token_lower[OF w] by simp
  from scoreChunk_title[OF w this]
  have five: "5 \<le> scoreChunk (rc_content row) (rc_title row) (rc_url row) (tokenize message)" .
  define x where "x = \<lparr>sc_url = rc_url row, sc_title = rc_title row, sc_chunkId = chunkId row,
      sc_content = rc_content row,
      score = scoreChunk (rc_content row) (rc_title row) (rc_url row) (tokenize message)\<rparr>"
  have "row \<in> set (getRagChunks db d)" using row by (simp add: set_getRagChunks)
  then have "x \<in> set ?scored" unfolding scoreRows_def x_def by (simp add: image_iff) blast
  from best_ge[OF this] five
  have "5 \<le> bestScore (retrieveRagContext TOP_K MAX_CONTEXT_CHARS db d message (Some 1) (Some 1200))"
    unfolding bestScore_retrieve by (simp add: x_def)
  then show "isLikelyOnTopic TOP_K MAX_CONTEXT_CHARS 2 db d message"
    by (simp add: isLikelyOnTopic_def)
qed

theorem isLikelyOnTopic_lexical_witness:
  "\<not> isLikelyOnTopic 8 12000 2 demoDb demoDomain ''what is the weather'' \<and>
   isLikelyOnTopic 8 12000 2 demoDb demoDomain ''do you offer cleaning''"
proof -
  have h1: "\<forall>w\<in>set (tokenize ''what is the weather''). \<forall>row\<in>set (rag_chunks demoDb).
        domain row = demoDomain \<longrightarrow>
        \<not> includesStr (toLowerCase (rc_title row)) w \<and>
        \<not> includesStr (toLowerCase (rc_url row)) w \<and>
        \<not> includesStr (toLowerCase (rc_content row)) w"
    by code_simp
  have h2: "\<exists>w\<in>set (tokenize ''do you offer cleaning''). \<exists>row\<in>set (rag_chunks demoDb).
        domain row = demoDomain \<and> includesStr (rc_title row) w"
    by code_simp
  from isLikelyOnTopic_lexical[of "''what is the weather''" demoDb demoDomain 8 12000] h1
  have 1: "\<not> isLikelyOnTopic 8 12000 2 demoDb demoDomain ''what is the weather''" by blast
  from isLikelyOnTopic_lexical[of "''do you offer cleaning''" demoDb demoDomain 8 12000] h2
  have 2: "isLikelyOnTopic 8 12000 2 demoDb demoDomain ''do you offer cleaning''" by blast
  from 1 2 show ?thesis ..
qed

section \<open>Properties of the crawler\<close>

lemma finishOrder_perm:
  "length (finishOrder pick us) = length us \<and> set (finishOrder pick us) = set us"
proof (induction pick us rule: finishOrder.induct)
  case (1 pick) show ?case by simp
next
  case (2 pick u us)
  define i where "i = pick (u # us) mod length (u # us)"
  have i: "i < length (u # us)" unfolding i_def by (rule mod_less_divisor) simp
  have split: "u # us = take i (u # us) @ (u # us) ! i # drop (Suc i) (u # us)"
    using i by (rule id_take_nth_drop)
  have IH: "length (finishOrder pick (take i (u # us) @ drop (Suc i) (u # us)))
        = length (take i (u # us) @ drop (Suc i) (u # us)) \<and>
      set (finishOrder pick (take i (u # us) @ drop (Suc i) (u # us)))
        = set (take i (u # us) @ drop (Suc i) (u # us))"
    using 2[of i] by (simp add: i_def)
  have f: "finishOrder pick (u # us) =
      (u # us) ! i # finishOrder pick (take i (u # us) @ drop (Suc i) (u # us))"
    by (simp add: i_def Let_def)
  have l: "length (take i (u # us) @ drop (Suc i) (u # us)) + 1 = length (u # us)"
    using i by (simp add: min_def)
  have "set (u # us) = set (take i (u # us) @ (u # us) ! i # drop (Suc i) (u # us))"
    using split by simp
  then have s: "set (u # us) = insert ((u # us) ! i) (set (take i (u # us) @ drop (Suc i) (u # us)))"
    by (simp only: set_append list.set) blast
  show ?case unfolding f using IH l s by (simp del: take_Suc_Cons drop_Suc_Cons)
qed

lemma buildBatch_appends:
  assumes "buildBatch M C q vis batch = (q', vis', batch')"
  shows "\<exists>new. vis' = vis @ new \<and> batch' = batch @ new \<and>
     (distinct vis \<longrightarrow> distinct vis') \<and>
     (0 < M \<longrightarrow> int (length vis) \<le> M \<longrightarrow> int (length vis') \<le> M)"
  using assms
proof (induction M C q vis batch rule: buildBatch.induct)
  case (1 M C vis batch)
  then show ?case by simp
next
  case (2 M C u q vis batch)
  show ?case
  proof (cases "int (length batch) < C")
    case False
    with 2(3) show ?thesis by simp
  next
    case True
    show ?thesis
    proof (cases "u \<notin> set vis \<and> canVisitMore M vis")
      case add: True
      with True 2(3) have "buildBatch M C q (vis @ [u]) (batch @ [u]) = (q', vis', batch')" by simp
      from 2(1)[OF True add this] obtain new where n: "vis' = (vis @ [u]) @ new"
        "batch' = (batch @ [u]) @ new"
        "distinct (vis @ [u]) \<longrightarrow> distinct vis'"
        "0 < M \<longrightarrow> int (length (vis @ [u])) \<le> M \<longrightarrow> int (length vis') \<le> M"
        by blast
      have "distinct vis \<longrightarrow> distinct vis'" using n(3) add by simp
      moreover have "0 < M \<longrightarrow> int (length vis) \<le> M \<longrightarrow> int (length vis') \<le> M"
        using n(4) add by (auto simp: canVisitMore_def)
      ultimately show ?thesis using n(1,2) by (intro exI[of _ "u # new"]) simp
    next
      case skip: False
      with True 2(3) have "buildBatch M C q vis batch = (q', vis', batch')" by auto
      from 2(2)[OF True skip this] show ?thesis .
    qed
  qed
qed

lemma trim_hd: "trim s \<noteq> [] \<Longrightarrow> \<not> is_space (hd (trim s))"
proof -
  assume ne: "trim s \<noteq> []"
  let ?t = "dropWhile is_space s"
  have "rev (dropWhile is_space (rev ?t)) @ rev (takeWhile is_space (rev ?t))
      = rev (takeWhile is_space (rev ?t) @ dropWhile is_space (rev ?t))"
    by (simp only: rev_append)
  also have "\<dots> = rev (rev ?t)" by (simp only: takeWhile_dropWhile_id)
  also have "\<dots> = ?t" by (simp only: rev_rev_ident)
  finally have t: "?t = trim s @ rev (takeWhile is_space (rev ?t))"
    by (simp only: trim_def)
  with ne have "hd ?t = hd (trim s)" by (metis hd_append2)
  moreover from t ne have "?t \<noteq> []" by (metis append_is_Nil_conv)
  then have "\<not> is_space (hd ?t)" by (rule hd_dropWhile)
  ultimately show ?thesis by simp
qed

lemma normalizeText_kept:
  assumes "s \<noteq> []" "\<not> is_space (hd s)"
  shows "normalizeText s \<noteq> []"
proof -
  from assms obtain c cs where s: "s = c # cs" "\<not> is_space c" by (cases s) auto
  then have c: "collapseWs s = c # collapseWs cs" by simp
  have "dropWhile is_space (rev (collapseWs cs) @ [c]) \<noteq> []"
    using s(2) by (simp add: dropWhile_eq_Nil_conv)
  then show ?thesis using s(2) by (simp add: normalizeText_def trim_def c)
qed

lemma page_content_kept:
  assumes "20 \<le> length (normalizeText raw)"
  shows "normalizeText (slice (normalizeText raw) 0 8000) \<noteq> []"
proof -
  let ?t = "normalizeText raw"
  have ne: "?t \<noteq> []" using assms by auto
  then have sp: "\<not> is_space (hd ?t)" unfolding normalizeText_def by (rule trim_hd)
  have sl: "slice ?t 0 8000 = take 8000 ?t" by (simp add: slice_nonneg)
  have "take 8000 ?t \<noteq> []" using ne by simp
  moreover have "hd (take 8000 ?t) = hd ?t" using ne by (cases ?t) simp_all
  ultimately show ?thesis unfolding sl using sp by (intro normalizeText_kept) simp_all
qed

lemma runTask_effect:
  assumes "runTask wb vis (pgs, disc) u = (pgs', disc')"
  shows "pgs' = pgs \<or> (\<exists>p. pgs' = pgs @ [p] \<and> url p = u \<and> normalizeText (content p) \<noteq> [])"
proof (cases "fetchPage wb u")
  case None
  with assms show ?thesis by simp
next
  case (Some html)
  obtain t raw links where c: "cheerio wb html = (t, raw, links)"
    by (cases "cheerio wb html") auto
  show ?thesis
  proof (cases "length (normalizeText raw) < 20")
    case True
    with assms Some c show ?thesis by (simp add: extractText_def)
  next
    case False
    then have "normalizeText (slice (normalizeText raw) 0 8000) \<noteq> []"
      by (intro page_content_kept) simp
    with assms Some c False show ?thesis by (auto simp: extractText_def)
  qed
qed

lemma runBatch_effect:
  assumes "foldl (runTask wb vis) (pgs, disc) us = (pgs', disc')"
  shows "length pgs' \<le> length pgs + length us \<and>
     url ` set pgs' \<subseteq> url ` set pgs \<union> set us \<and>
     ((\<forall>p\<in>set pgs. normalizeText (content p) \<noteq> []) \<longrightarrow>
      (\<forall>p\<in>set pgs'. normalizeText (content p) \<noteq> []))"
  using assms
proof (induction us arbitrary: pgs disc)
  case Nil then show ?case by simp
next
  case (Cons u us)
  obtain p1 d1 where r: "runTask wb vis (pgs, disc) u = (p1, d1)"
    by (cases "runTask wb vis (pgs, disc) u") auto
  from runTask_effect[OF r] have e: "length p1 \<le> length pgs + 1"
    "url ` set p1 \<subseteq> url ` set pgs \<union> {u}"
    "(\<forall>p\<in>set pgs. normalizeText (content p) \<noteq> []) \<longrightarrow>
      (\<forall>p\<in>set p1. normalizeText (content p) \<noteq> [])"
    by auto
  from Cons.prems r have "foldl (runTask wb vis) (p1, d1) us = (pgs', disc')" by simp
  from Cons.IH[OF this] have i: "length pgs' \<le> length p1 + length us"
    "url ` set pgs' \<subseteq> url ` set p1 \<union> set us"
    "(\<forall>p\<in>set p1. normalizeText (content p) \<noteq> []) \<longrightarrow>
      (\<forall>p\<in>set pgs'. normalizeText (content p) \<noteq> [])"
    by simp_all
  have "url ` set pgs' \<subseteq> url ` set pgs \<union> set (u # us)"
    using i(2) e(2) by (simp only: list.set) blast
  moreover have "length pgs' \<le> length pgs + length (u # us)" using i(1) e(1) by simp
  moreover have "(\<forall>p\<in>set pgs. normalizeText (content p) \<noteq> []) \<longrightarrow>
      (\<forall>p\<in>set pgs'. normalizeText (content p) \<noteq> [])"
    using i(3) e(3) by blast
  ultimately show ?case by blast
qed

lemma crawlLoop_total:
  assumes M: "0 < M"
  shows "distinct (visited st) \<Longrightarrow> int (length (visited st)) \<le> M \<Longrightarrow>
     calls st = c0 # map PageFetch (visited st) \<Longrightarrow>
     length (pages st) \<le> length (visited st) \<Longrightarrow>
     url ` set (pages st) \<subseteq> set (visited st) \<Longrightarrow>
     \<exists>st'. crawlLoop wb M C st = Some st' \<and> distinct (visited st') \<and>
       int (length (visited st')) \<le> M \<and> calls st' = c0 # map PageFetch (visited st') \<and>
       length (pages st') \<le> length (visited st') \<and>
       url ` set (pages st') \<subseteq> set (visited st')"
proof (induction "nat M - length (visited st)" arbitrary: st rule: less_induct)
  case less
  show ?case
  proof (cases "queue st \<noteq> [] \<and> canVisitMore M (visited st)")
    case False
    then have "crawlLoop wb M C st = Some st"
      by (subst crawlLoop.simps) auto
    with less.prems show ?thesis by simp
  next
    case True
    obtain q vis batch where bb: "buildBatch M C (queue st) (visited st) [] = (q, vis, batch)"
      by (cases "buildBatch M C (queue st) (visited st) []") auto
    from buildBatch_appends[OF bb] less.prems(1,2) M
    have vis: "vis = visited st @ batch" "distinct vis" "int (length vis) \<le> M"
      by auto
    show ?thesis
    proof (cases "batch = []")
      case e: True
      have "crawlLoop wb M C st = Some (st\<lparr>queue := q, visited := vis\<rparr>)"
        using True bb e by (subst crawlLoop.simps) simp
      moreover have "vis = visited st" using vis(1) e by simp
      ultimately show ?thesis using less.prems by simp
    next
      case ne: False
      obtain pgs disc where run:
        "foldl (runTask wb vis) (pages st, []) (finishOrder (finishes wb) batch) = (pgs, disc)"
        by (cases "foldl (runTask wb vis) (pages st, []) (finishOrder (finishes wb) batch)") auto
      define st2 where "st2 = \<lparr>visited = vis,
          queue = q @ filter isCorePath disc @ filter (\<lambda>u. \<not> isCorePath u) disc,
          pages = pgs, calls = calls st @ map PageFetch batch\<rparr>"
      have step: "crawlLoop wb M C st = crawlLoop wb M C st2"
        using True bb ne run by (subst crawlLoop.simps) (simp add: st2_def)
      from runBatch_effect[OF run]
      have eff: "length pgs \<le> length (pages st) + length batch"
        "url ` set pgs \<subseteq> url ` set (pages st) \<union> set batch"
        by (simp_all add: finishOrder_perm)
      have 1: "distinct (visited st2)" using vis(2) by (simp add: st2_def)
      have 2: "int (length (visited st2)) \<le> M" using vis(3) by (simp add: st2_def)
      have 3: "calls st2 = c0 # map PageFetch (visited st2)"
        using less.prems(3) vis(1) by (simp add: st2_def)
      have 4: "length (pages st2) \<le> length (visited st2)"
        using eff(1) less.prems(4) vis(1) by (simp add: st2_def)
      have 5: "url ` set (pages st2) \<subseteq> set (visited st2)"
        using eff(2) less.prems(5) vis(1) by (auto simp: st2_def)
      have "length (visited st) < length vis" using vis(1) ne by simp
      then have m: "nat M - length (visited st2) < nat M - length (visited st)"
        using vis(3) by (simp add: st2_def)
      from less.hyps[OF m 1 2 3 4 5] step show ?thesis by simp
    qed
  qed
qed



text \<open>
  Claim C10. With a page budget \<open>M > 0\<close> the crawl returns, whatever the order in which the
  tasks of a batch finish, and in the state it ends in the visited urls are distinct and at
  most \<open>M\<close>; the page fetches made are exactly the visited urls, one fetch each, whatever the
  fetch gave, so every attempt uses the budget; every page returned was fetched from a visited
  url, so at most \<open>M\<close> pages are returned. They can be fewer than \<open>M\<close> while a page that
  answers is left unvisited: with \<open>M = 1\<close> on the example site the only fetch is the root,
  which fails, and the about page, a seed, is never fetched.
\<close>

theorem scrapesite_page_budget:
  "(0 < MAX_PAGES \<longrightarrow>
      (\<exists>st. scrapeState wb SITE MAX_PAGES CONC extra d = Some st \<and>
         scrapesite wb SITE MAX_PAGES CONC extra d = Some (pages st, calls st) \<and>
         distinct (visited st) \<and> int (length (visited st)) \<le> MAX_PAGES \<and>
         calls st = SitemapFetch (if d = [] then SITE else d) # map PageFetch (visited st) \<and>
         length (pages st) \<le> length (visited st) \<and>
         int (length (pages st)) \<le> MAX_PAGES \<and>
         url ` set (pages st) \<subseteq> set (visited st))) \<and>
   (\<exists>st u html. scrapeState demoWeb ''https://example.com'' 1 3 [] demoDomain = Some st \<and>
      int (length (pages st)) < 1 \<and>
      u \<in> set (buildSeedQueue demoWeb [] demoDomain) \<and> u \<notin> set (visited st) \<and>
      fetchPage demoWeb u = Some html \<and> 20 \<le> length (fst (snd (extractText demoWeb html))))"
proof (intro conjI impI)
  assume M: "0 < MAX_PAGES"
  let ?base = "if d = [] then SITE else d"
  let ?st0 = "\<lparr>visited = [], queue = buildSeedQueue wb extra ?base @ fetchSitemapUrls wb ?base,
            pages = [], calls = [SitemapFetch ?base]\<rparr>"
  have "\<exists>st'. crawlLoop wb MAX_PAGES CONC ?st0 = Some st' \<and> distinct (visited st') \<and>
       int (length (visited st')) \<le> MAX_PAGES \<and>
       calls st' = SitemapFetch ?base # map PageFetch (visited st') \<and>
       length (pages st') \<le> length (visited st') \<and>
       url ` set (pages st') \<subseteq> set (visited st')"
    using M by (intro crawlLoop_total) simp_all
  then obtain st where st: "crawlLoop wb MAX_PAGES CONC ?st0 = Some st" "distinct (visited st)"
    "int (length (visited st)) \<le> MAX_PAGES"
    "calls st = SitemapFetch ?base # map PageFetch (visited st)"
    "length (pages st) \<le> length (visited st)"
    "url ` set (pages st) \<subseteq> set (visited st)"
    by blast
  have s: "scrapeState wb SITE MAX_PAGES CONC extra d = Some st"
    using st(1) by (simp add: scrapeState_def Let_def)
  then have "scrapesite wb SITE MAX_PAGES CONC extra d = Some (pages st, calls st)"
    by (simp add: scrapesite_def)
  moreover have "int (length (pages st)) \<le> MAX_PAGES" using st(3,5) by linarith
  ultimately show "\<exists>st. scrapeState wb SITE MAX_PAGES CONC extra d = Some st \<and>
         scrapesite wb SITE MAX_PAGES CONC extra d = Some (pages st, calls st) \<and>
         distinct (visited st) \<and> int (length (visited st)) \<le> MAX_PAGES \<and>
         calls st = SitemapFetch ?base # map PageFetch (visited st) \<and>
         length (pages st) \<le> length (visited st) \<and>
         int (length (pages st)) \<le> MAX_PAGES \<and>
         url ` set (pages st) \<subseteq> set (visited st)"
    using s st by blast
next
  have run: "scrapeState demoWeb ''https://example.com'' 1 3 [] demoDomain =
      Some \<lparr>visited = [''https://acme.test/''], queue = [], pages = [],
            calls = [SitemapFetch ''https://acme.test'', PageFetch ''https://acme.test/'']\<rparr>"
    by code_simp
  have seed: "''https://acme.test/about'' \<in> set (buildSeedQueue demoWeb [] demoDomain)"
    by code_simp
  have ok: "fetchPage demoWeb ''https://acme.test/about'' = Some ''<about>''"
    "20 \<le> length (fst (snd (extractText demoWeb ''<about>'')))"
    by (simp_all add: demoWeb_def extractText_def normalizeText_def trim_def is_space_def)
  show "\<exists>st u html. scrapeState demoWeb ''https://example.com'' 1 3 [] demoDomain = Some st \<and>
      int (length (pages st)) < 1 \<and>
      u \<in> set (buildSeedQueue demoWeb [] demoDomain) \<and> u \<notin> set (visited st) \<and>
      fetchPage demoWeb u = Some html \<and> 20 \<le> length (fst (snd (extractText demoWeb html)))"
    using run seed ok
    by (intro exI[of _ "\<lparr>visited = [''https://acme.test/''], queue = [], pages = [],
            calls = [SitemapFetch ''https://acme.test'', PageFetch ''https://acme.test/'']\<rparr>"]
          exI[of _ "''https://acme.test/about''"] exI[of _ "''<about>''"]) simp
qed

theorem scrapesite_page_budget_witness:
  "(0::int) < 2 \<and>
   (\<exists>st. scrapeState demoWeb ''https://example.com'' 2 3 [] demoDomain = Some st \<and>
      int (length (visited st)) \<le> 2 \<and> length (pages st) \<le> length (visited st) \<and>
      calls st = SitemapFetch demoDomain # map PageFetch (visited st))"
proof -
  have h: "(0::int) < 2" by simp
  have d: "demoDomain \<noteq> []" by (simp add: demoDomain_def)
  from scrapesite_page_budget[of 2 demoWeb "''https://example.com''" 3 "[]" demoDomain] h d
  show ?thesis by auto
qed

section \<open>Properties of the index build\<close>

text \<open>
  Claim C7. When the metadata stored for the domain has a chunk count above 0 and the caller
  does not force a rebuild, \<open>ensureRagIndex\<close> returns \<open>built = false\<close> with the stored page
  count, chunk count and index time, makes no network call, and returns the database it was
  given: chunks, metadata and facts are untouched.
\<close>

theorem ensureRagIndex_cached:
  assumes "getRagMeta db d = Some meta" and "0 < chunkCount meta"
  shows "\<exists>r. ensureRagIndex env now nowIso db d site False = Some (db, [], Inr r) \<and>
     \<not> built r \<and> er_pageCount r = pageCount meta \<and> er_chunkCount r = chunkCount meta \<and>
     er_indexedAt r = indexedAt meta"
  using assms by (simp add: ensureRagIndex_def)

theorem ensureRagIndex_cached_witness:
  "getRagMeta demoDb demoDomain =
     Some \<lparr>siteName = Some ''Acme'', pageCount = 3, chunkCount = 4, indexedAt = ''t0''\<rparr> \<and>
   (\<exists>r. ensureRagIndex demoEnv ''t1'' ''T1'' demoDb demoDomain ''Acme Plumbing'' False =
          Some (demoDb, [], Inr r) \<and>
        \<not> built r \<and> er_pageCount r = 3 \<and> er_chunkCount r = 4 \<and> er_indexedAt r = ''t0'')"
proof -
  let ?meta = "\<lparr>siteName = Some ''Acme'', pageCount = 3, chunkCount = 4, indexedAt = ''t0''\<rparr>"
  have h1: "getRagMeta demoDb demoDomain = Some ?meta"
    by (simp add: getRagMeta_def demoDb_def)
  have h2: "0 < chunkCount ?meta" by simp
  from ensureRagIndex_cached[OF h1 h2, of demoEnv "''t1''" "''T1''" "''Acme Plumbing''"] h1
  show ?thesis by simp
qed











end
